theory Spec2Isabelle
  imports Main "HOL-Library.Sublist"
begin

section \<open>Data model of translate.py\<close>

text \<open>
  Python strings are modelled as \<open>string\<close> (lists of \<open>char\<close>); a \<open>char\<close> is read as
  a code point below 256. Exceptions are values of \<open>error\<close>; a function that can raise
  returns \<open>error + 'a\<close> with \<open>Inl\<close> for the exception.
\<close>

datatype error = ValueError | AssertionError | IndexError | KeyError

datatype warning =
    BracketsNotFoundWarning
  | TranslationMismatchWarning
  | TemplateTokenMismatchWarning

datatype TagCategory =
    Empty | Facility | OtherLOC | HumanSettlement | Station
  | VisualWork | MusicalWork | WrittenWork | ArtWork | Software | OtherCW
  | MusicalGRP | PublicCorp | PrivateCorp | OtherCorp | AerospaceManufacturer
  | SportsGRP | CarManufacturer | TechCorp | ORG
  | Scientist | Artist | Athlete | Politician | Cleric | SportsManager | OtherPER
  | Clothing | Vehicle | Food | Drink | OtherPROD
  | MedicationVaccine | MedicalProcedure | AnatomicalStructure | Symptom | Disease

fun TagCategory_value :: "TagCategory \<Rightarrow> string" where
  "TagCategory_value Empty = ''''"
| "TagCategory_value Facility = ''Facility''"
| "TagCategory_value OtherLOC = ''OtherLOC''"
| "TagCategory_value HumanSettlement = ''HumanSettlement''"
| "TagCategory_value Station = ''Station''"
| "TagCategory_value VisualWork = ''VisualWork''"
| "TagCategory_value MusicalWork = ''MusicalWork''"
| "TagCategory_value WrittenWork = ''WrittenWork''"
| "TagCategory_value ArtWork = ''ArtWork''"
| "TagCategory_value Software = ''Software''"
| "TagCategory_value OtherCW = ''OtherCW''"
| "TagCategory_value MusicalGRP = ''MusicalGRP''"
| "TagCategory_value PublicCorp = ''PublicCorp''"
| "TagCategory_value PrivateCorp = ''PrivateCorp''"
| "TagCategory_value OtherCorp = ''OtherCorp''"
| "TagCategory_value AerospaceManufacturer = ''AerospaceManufacturer''"
| "TagCategory_value SportsGRP = ''SportsGRP''"
| "TagCategory_value CarManufacturer = ''CarManufacturer''"
| "TagCategory_value TechCorp = ''TechCorp''"
| "TagCategory_value ORG = ''ORG''"
| "TagCategory_value Scientist = ''Scientist''"
| "TagCategory_value Artist = ''Artist''"
| "TagCategory_value Athlete = ''Athlete''"
| "TagCategory_value Politician = ''Politician''"
| "TagCategory_value Cleric = ''Cleric''"
| "TagCategory_value SportsManager = ''SportsManager''"
| "TagCategory_value OtherPER = ''OtherPER''"
| "TagCategory_value Clothing = ''Clothing''"
| "TagCategory_value Vehicle = ''Vehicle''"
| "TagCategory_value Food = ''Food''"
| "TagCategory_value Drink = ''Drink''"
| "TagCategory_value OtherPROD = ''OtherPROD''"
| "TagCategory_value MedicationVaccine = ''Medication/Vaccine''"
| "TagCategory_value MedicalProcedure = ''MedicalProcedure''"
| "TagCategory_value AnatomicalStructure = ''AnatomicalStructure''"
| "TagCategory_value Symptom = ''Symptom''"
| "TagCategory_value Disease = ''Disease''"

text \<open>\<open>TagType.B\<close>, \<open>TagType.I\<close>, \<open>TagType.O\<close>; the constructors carry the class name
  because \<open>O\<close> is taken by relation composition.\<close>

datatype TagType = TagType_B | TagType_I | TagType_O

fun TagType_value :: "TagType \<Rightarrow> string" where
  "TagType_value TagType_B = ''B''"
| "TagType_value TagType_I = ''I''"
| "TagType_value TagType_O = ''O''"

record Tag =
  tag_type :: TagType
  tag_category :: TagCategory

definition tag_format :: "Tag \<Rightarrow> string" where
  "tag_format t =
     TagType_value (tag_type t) @
     (if tag_type t \<noteq> TagType_O then ''-'' @ TagCategory_value (tag_category t) else '''')"

datatype Domain = BN | DE | EN | ES | FA | FR | HI | IT | PT | SV | UK | ZH

fun Domain_value :: "Domain \<Rightarrow> string" where
  "Domain_value BN = ''bn''"
| "Domain_value DE = ''de''"
| "Domain_value EN = ''en''"
| "Domain_value ES = ''es''"
| "Domain_value FA = ''fa''"
| "Domain_value FR = ''fr''"
| "Domain_value HI = ''hi''"
| "Domain_value IT = ''it''"
| "Domain_value PT = ''pt''"
| "Domain_value SV = ''sv''"
| "Domain_value UK = ''uk''"
| "Domain_value ZH = ''zh''"

record Word =
  token :: string
  tag :: Tag

record Sentence =
  id_value :: "string option"
  domain :: "Domain option"
  words :: "Word list"
  entity_indexes :: "nat list"

text \<open>\<open>Sentence()\<close>: every field defaulted (fresh empty lists, \<open>None\<close> for id and domain).\<close>

definition Sentence_init :: Sentence where
  "Sentence_init = \<lparr>id_value = None, domain = None, words = [], entity_indexes = []\<rparr>"

definition add_word :: "Sentence \<Rightarrow> Word \<Rightarrow> Sentence" where
  "add_word self word =
     (let self = self\<lparr>words := words self @ [word]\<rparr>
      in if tag_type (tag word) = TagType_B
         then self\<lparr>entity_indexes := entity_indexes self @ [length (words self) - 1]\<rparr>
         else self)"

text \<open>The parser's way of building a sentence: a fresh \<open>Sentence()\<close>, the id line's fields
  assigned, then one \<open>add_word\<close> per word line.\<close>

definition parsed_sentence :: "string option \<Rightarrow> Domain option \<Rightarrow> Word list \<Rightarrow> Sentence" where
  "parsed_sentence idv dmn ws = foldl add_word (Sentence_init\<lparr>id_value := idv, domain := dmn\<rparr>) ws"

section \<open>Python string and list primitives\<close>

definition START_BRACKET :: string where "START_BRACKET = [CHR 0x22]"
definition END_BRACKET :: string where "END_BRACKET = [CHR 0x22]"
definition TEMPLATE_TOKEN :: string where "TEMPLATE_TOKEN = ''<#TEMPLATE#>''"
definition TARGET_LANGUAGE :: string where "TARGET_LANGUAGE = ''fr''"
definition TRANSLATED_TEXT_KEY :: string where "TRANSLATED_TEXT_KEY = ''translatedText''"

text \<open>\<open>str.isspace\<close> on one character, for code points below 256.\<close>

definition is_space :: "char \<Rightarrow> bool" where
  "is_space c = (c \<in> {CHR 0x09, CHR 0x0A, CHR 0x0B, CHR 0x0C, CHR 0x0D,
                       CHR 0x1C, CHR 0x1D, CHR 0x1E, CHR 0x1F, CHR 0x20, CHR 0x85, CHR 0xA0})"

text \<open>\<open>s.strip()\<close>.\<close>

definition strip :: "string \<Rightarrow> string" where
  "strip s = rev (dropWhile is_space (rev (dropWhile is_space s)))"

text \<open>\<open>s.split()\<close>: maximal runs of non-whitespace characters.\<close>

fun split_from :: "string \<Rightarrow> string \<Rightarrow> string list" where
  "split_from cur [] = (if cur = [] then [] else [cur])"
| "split_from cur (c # cs) =
     (if is_space c then (if cur = [] then split_from [] cs else cur # split_from [] cs)
      else split_from (cur @ [c]) cs)"

definition split :: "string \<Rightarrow> string list" where
  "split s = split_from [] s"

text \<open>\<open>s.find(sub)\<close> as an option: the lowest index at which \<open>sub\<close> starts.\<close>

fun str_find :: "string \<Rightarrow> string \<Rightarrow> nat option" where
  "str_find sub [] = (if sub = [] then Some 0 else None)"
| "str_find sub (c # cs) =
     (if prefix sub (c # cs) then Some 0 else map_option Suc (str_find sub cs))"

text \<open>\<open>s.index(sub)\<close> raises ValueError when \<open>sub\<close> does not occur.\<close>

definition str_index :: "string \<Rightarrow> string \<Rightarrow> error + nat" where
  "str_index s sub = (case str_find sub s of None \<Rightarrow> Inl ValueError | Some i \<Rightarrow> Inr i)"

text \<open>\<open>sub in s\<close>.\<close>

definition str_contains :: "string \<Rightarrow> string \<Rightarrow> bool" where
  "str_contains s sub = (str_find sub s \<noteq> None)"

text \<open>\<open>s.count(sub)\<close>: non-overlapping occurrences, scanning from the left; the empty
  string occurs \<open>len(s) + 1\<close> times.\<close>

fun str_count_from :: "nat \<Rightarrow> string \<Rightarrow> string \<Rightarrow> nat" where
  "str_count_from skip sub [] = 0"
| "str_count_from skip sub (c # cs) =
     (if skip > 0 then str_count_from (skip - 1) sub cs
      else if prefix sub (c # cs) then 1 + str_count_from (length sub - 1) sub cs
      else str_count_from 0 sub cs)"

definition str_count :: "string \<Rightarrow> string \<Rightarrow> nat" where
  "str_count s sub = (if sub = [] then length s + 1 else str_count_from 0 sub s)"

text \<open>\<open>s.replace(old, new, 1)\<close>: only the leftmost occurrence is replaced.\<close>

definition str_replace1 :: "string \<Rightarrow> string \<Rightarrow> string \<Rightarrow> string" where
  "str_replace1 s old new =
     (case str_find old s of
        None \<Rightarrow> s
      | Some i \<Rightarrow> take i s @ new @ drop (i + length old) s)"

text \<open>\<open>xs[i]\<close> for an integer index: negative indexes count from the end, an index out of
  range raises IndexError.\<close>

definition list_index :: "'a list \<Rightarrow> int \<Rightarrow> error + 'a" where
  "list_index xs i =
     (if 0 \<le> i \<and> i < int (length xs) then Inr (xs ! nat i)
      else if - int (length xs) \<le> i \<and> i < 0 then Inr (xs ! nat (int (length xs) + i))
      else Inl IndexError)"

text \<open>A list comprehension whose element expression can raise: the first exception ends it.\<close>

fun list_comprehension :: "('a \<Rightarrow> error + 'b) \<Rightarrow> 'a list \<Rightarrow> error + 'b list" where
  "list_comprehension f [] = Inr []"
| "list_comprehension f (x # xs) =
     (case f x of
        Inl e \<Rightarrow> Inl e
      | Inr y \<Rightarrow> (case list_comprehension f xs of Inl e \<Rightarrow> Inl e | Inr ys \<Rightarrow> Inr (y # ys)))"

section \<open>Bracket helpers\<close>

definition check_brackets :: "string \<Rightarrow> bool" where
  "check_brackets s =
     (if START_BRACKET = END_BRACKET then str_count s START_BRACKET = 2
      else str_count s START_BRACKET = str_count s END_BRACKET \<and> str_count s END_BRACKET = 1)"

definition get_bracket_indexes :: "string \<Rightarrow> error + nat \<times> nat" where
  "get_bracket_indexes s =
     (if \<not> check_brackets s then Inl AssertionError
      else case str_index s START_BRACKET of
        Inl e \<Rightarrow> Inl e
      | Inr start_bracket_index \<Rightarrow>
          (case str_index (drop (start_bracket_index + 1) s) END_BRACKET of
             Inl e \<Rightarrow> Inl e
           | Inr k \<Rightarrow> Inr (start_bracket_index, start_bracket_index + 1 + k)))"

definition remove_brackets :: "string \<Rightarrow> error + string" where
  "remove_brackets s =
     (if \<not> check_brackets s then Inl AssertionError
      else case get_bracket_indexes s of
        Inl e \<Rightarrow> Inl e
      | Inr (start_bracket_index, end_bracket_index) \<Rightarrow>
          Inr (take start_bracket_index s
               @ drop (start_bracket_index + 1) (take end_bracket_index s)
               @ drop (end_bracket_index + 1) s))"

definition get_bracketed_entity :: "string \<Rightarrow> error + string" where
  "get_bracketed_entity s =
     (if \<not> check_brackets s then Inl AssertionError
      else case get_bracket_indexes s of
        Inl e \<Rightarrow> Inl e
      | Inr (start_bracket_index, end_bracket_index) \<Rightarrow>
          Inr (drop (start_bracket_index + 1) (take end_bracket_index s)))"

section \<open>Sentence methods\<close>

text \<open>The inner loop of \<open>get_bracketed_sentences\<close> over \<open>enumerate(self.words)\<close>; the state is
  \<open>(bracketed_sentence, bracketing)\<close>.\<close>

fun bracket_loop :: "nat \<Rightarrow> nat \<Rightarrow> Word list \<Rightarrow> string \<times> bool \<Rightarrow> error + string \<times> bool" where
  "bracket_loop entity_index i [] (bracketed_sentence, bracketing) =
     Inr (bracketed_sentence, bracketing)"
| "bracket_loop entity_index i (word # rest) (bracketed_sentence, bracketing) =
     (let bracketed_sentence = bracketed_sentence @ '' '' in
      if i = entity_index then
        bracket_loop entity_index (Suc i) rest
          (bracketed_sentence @ START_BRACKET @ token word, True)
      else if bracketing then
        (if tag_type (tag word) \<noteq> TagType_I then
           (if \<not> (tag_type (tag word) = TagType_O \<or> tag_type (tag word) = TagType_B)
            then Inl AssertionError
            else bracket_loop entity_index (Suc i) rest
                   (butlast bracketed_sentence @ END_BRACKET @ '' '' @ token word, False))
         else bracket_loop entity_index (Suc i) rest (bracketed_sentence @ token word, True))
      else bracket_loop entity_index (Suc i) rest (bracketed_sentence @ token word, bracketing))"

text \<open>The body of the outer loop: one bracketed sentence for one entity index.\<close>

definition bracketed_sentence_of :: "Word list \<Rightarrow> nat \<Rightarrow> error + string" where
  "bracketed_sentence_of ws entity_index =
     (case bracket_loop entity_index 0 ws ('''', False) of
        Inl e \<Rightarrow> Inl e
      | Inr (bracketed_sentence, bracketing) \<Rightarrow>
          (let bracketed_sentence =
                 (if bracketing then bracketed_sentence @ END_BRACKET else bracketed_sentence);
               bracketed_sentence = strip bracketed_sentence
           in if \<not> check_brackets bracketed_sentence then Inl ValueError
              else Inr bracketed_sentence))"

definition get_bracketed_sentences :: "Sentence \<Rightarrow> error + string list" where
  "get_bracketed_sentences self =
     (case list_comprehension (bracketed_sentence_of (words self)) (entity_indexes self) of
        Inl e \<Rightarrow> Inl e
      | Inr bracketed_sentences \<Rightarrow>
          if length bracketed_sentences \<noteq> length (entity_indexes self) then Inl AssertionError
          else Inr bracketed_sentences)"

text \<open>The loop of \<open>get_entity\<close>; \<open>break\<close> returns the text collected so far.\<close>

fun get_entity_loop :: "nat \<Rightarrow> nat \<Rightarrow> Word list \<Rightarrow> string \<Rightarrow> string" where
  "get_entity_loop entity_index i [] entity = entity"
| "get_entity_loop entity_index i (word # rest) entity =
     (if i = entity_index then get_entity_loop entity_index (Suc i) rest (entity @ token word)
      else if i > entity_index then
        (if tag_type (tag word) \<noteq> TagType_I then entity
         else get_entity_loop entity_index (Suc i) rest (entity @ '' '' @ token word))
      else get_entity_loop entity_index (Suc i) rest entity)"

definition get_entity :: "Sentence \<Rightarrow> int \<Rightarrow> error + string" where
  "get_entity self entity_indexes_index =
     (case list_index (entity_indexes self) entity_indexes_index of
        Inl e \<Rightarrow> Inl e
      | Inr entity_index \<Rightarrow> Inr (get_entity_loop entity_index 0 (words self) ''''))"

definition get_entities :: "Sentence \<Rightarrow> error + string list" where
  "get_entities self =
     list_comprehension (\<lambda>i. get_entity self (int i)) [0..<length (entity_indexes self)]"

definition get_entity_category :: "Sentence \<Rightarrow> int \<Rightarrow> error + TagCategory" where
  "get_entity_category self entity_indexes_index =
     (case list_index (entity_indexes self) entity_indexes_index of
        Inl e \<Rightarrow> Inl e
      | Inr entity_index \<Rightarrow>
          (case list_index (words self) (int entity_index) of
             Inl e \<Rightarrow> Inl e
           | Inr word \<Rightarrow> Inr (tag_category (tag word))))"

definition get_entity_categories :: "Sentence \<Rightarrow> error + TagCategory list" where
  "get_entity_categories self =
     list_comprehension (\<lambda>i. get_entity_category self (int i)) [0..<length (entity_indexes self)]"

section \<open>Output files\<close>

text \<open>An open output file is modelled by the text written to it so far; \<open>write\<close> appends.\<close>

definition add_conll_word :: "string \<Rightarrow> Word \<Rightarrow> string" where
  "add_conll_word file_desc word =
     file_desc @ (token word @ '' _ _ '' @ tag_format (tag word) @ ''\<newline>'')"

definition add_conll_id_line :: "string \<Rightarrow> string \<Rightarrow> Domain \<Rightarrow> string" where
  "add_conll_id_line file_desc idv dmn =
     file_desc @ (''# id '' @ idv @ [CHR 0x09] @ ''domain='' @ Domain_value dmn @ ''\<newline>'')"

text \<open>\<open>Domain(code)\<close>: the enum member with that value, ValueError when there is none.\<close>

definition Domain_of_value :: "string \<Rightarrow> error + Domain" where
  "Domain_of_value v =
     (case filter (\<lambda>d. Domain_value d = v) [BN, DE, EN, ES, FA, FR, HI, IT, PT, SV, UK, ZH] of
        [] \<Rightarrow> Inl ValueError
      | d # _ \<Rightarrow> Inr d)"

text \<open>\<open>str(n)\<close> for an integer, and \<open>str(x)\<close> for the optional id (\<open>None\<close> prints as None).\<close>

fun str_nat :: "nat \<Rightarrow> string" where
  "str_nat n =
     (if n < 10 then [char_of (48 + n)] else str_nat (n div 10) @ [char_of (48 + n mod 10)])"

declare str_nat.simps [simp del]

definition str_int :: "int \<Rightarrow> string" where
  "str_int i = (if i < 0 then ''-'' @ str_nat (nat (- i)) else str_nat (nat i))"

definition str_optional :: "string option \<Rightarrow> string" where
  "str_optional x = (case x of None \<Rightarrow> ''None'' | Some s \<Rightarrow> s)"

section \<open>The reconstruction loop\<close>

text \<open>The state the loop over the sentences carries: the two output files, the cursor into
  the translation results, the count of emitted sentences and the warnings issued so far.\<close>

record run_state =
  trans_file :: string
  orig_file :: string
  translations_index :: nat
  db_amt :: nat
  warnings :: "warning list"

datatype flow = Continue | Break

definition max_amt :: nat where "max_amt = 4"

text \<open>A translation result is a JSON object; \<open>result[key]\<close> raises KeyError on a missing key.\<close>

type_synonym result = "(string \<times> string) list"

definition dict_get :: "result \<Rightarrow> string \<Rightarrow> error + string" where
  "dict_get d k = (case map_of d k of None \<Rightarrow> Inl KeyError | Some v \<Rightarrow> Inr v)"

text \<open>Lines 392 to 402: the loop over the translations, which stops at the first translation
  without brackets or with a different unbracketed text. The result is the warning issued,
  if any (\<open>skip\<close> is set exactly when there is one).\<close>

fun check_translations :: "string \<Rightarrow> string list \<Rightarrow> error + warning option" where
  "check_translations main_unbracketed_translation [] = Inr None"
| "check_translations main_unbracketed_translation (translation # rest) =
     (if \<not> check_brackets translation then Inr (Some BracketsNotFoundWarning)
      else case remove_brackets translation of
        Inl e \<Rightarrow> Inl e
      | Inr unbracketed_translation \<Rightarrow>
          if unbracketed_translation \<noteq> main_unbracketed_translation
          then Inr (Some TranslationMismatchWarning)
          else check_translations main_unbracketed_translation rest)"

text \<open>Lines 390 to 402: the unbracketed main translation is taken from \<open>translations[0]\<close>
  first, then the loop runs.\<close>

definition verify_translations :: "string list \<Rightarrow> error + string \<times> warning option" where
  "verify_translations translations =
     (case list_index translations 0 of
        Inl e \<Rightarrow> Inl e
      | Inr first \<Rightarrow>
          (case remove_brackets first of
             Inl e \<Rightarrow> Inl e
           | Inr main_unbracketed_translation \<Rightarrow>
               (case check_translations main_unbracketed_translation translations of
                  Inl e \<Rightarrow> Inl e
                | Inr skip \<Rightarrow> Inr (main_unbracketed_translation, skip))))"

text \<open>Lines 421 to 429: the template.\<close>

definition make_template :: "string \<Rightarrow> string list \<Rightarrow> error + string" where
  "make_template main_unbracketed_translation translated_entity_tokens =
     (if str_contains main_unbracketed_translation TEMPLATE_TOKEN then Inl AssertionError
      else Inr (foldl (\<lambda>template translated_entity_token.
                         str_replace1 template translated_entity_token TEMPLATE_TOKEN)
                  main_unbracketed_translation translated_entity_tokens))"

text \<open>Lines 455 to 457: the words of one entity written to one file.\<close>

fun write_entity_tokens :: "TagCategory \<Rightarrow> nat \<Rightarrow> string list \<Rightarrow> string \<Rightarrow> string" where
  "write_entity_tokens category token_index [] file = file"
| "write_entity_tokens category token_index (tok # rest) file =
     write_entity_tokens category (Suc token_index) rest
       (add_conll_word file
          \<lparr>token = tok,
           tag = \<lparr>tag_type = (if token_index = 0 then TagType_B else TagType_I),
                  tag_category = category\<rparr>\<rparr>)"

text \<open>Lines 445 to 461: the walk over the split template. The state is
  \<open>(entity_indexes_index, orig_out, trans_out)\<close>, the last two being the texts of the two files.\<close>

fun walk_template ::
  "string list \<Rightarrow> TagCategory list \<Rightarrow> string list \<Rightarrow> string list
   \<Rightarrow> int \<times> string \<times> string \<Rightarrow> error + int \<times> string \<times> string" where
  "walk_template [] entity_categories original_entity_tokens translated_entity_tokens st = Inr st"
| "walk_template (word # rest) entity_categories original_entity_tokens translated_entity_tokens
     (entity_indexes_index, orig_out, trans_out) =
     (if word = TEMPLATE_TOKEN then
        (let entity_indexes_index = entity_indexes_index + 1 in
         case list_index entity_categories entity_indexes_index of
           Inl e \<Rightarrow> Inl e
         | Inr category \<Rightarrow>
         (case list_index original_entity_tokens entity_indexes_index of
           Inl e \<Rightarrow> Inl e
         | Inr original_entity \<Rightarrow>
         (case list_index translated_entity_tokens entity_indexes_index of
           Inl e \<Rightarrow> Inl e
         | Inr translated_entity \<Rightarrow>
             walk_template rest entity_categories original_entity_tokens translated_entity_tokens
               (entity_indexes_index,
                write_entity_tokens category 0 (split original_entity) orig_out,
                write_entity_tokens category 0 (split translated_entity) trans_out))))
      else
        (let w = \<lparr>token = word, tag = \<lparr>tag_type = TagType_O, tag_category = Empty\<rparr>\<rparr> in
         walk_template rest entity_categories original_entity_tokens translated_entity_tokens
           (entity_indexes_index, add_conll_word orig_out w, add_conll_word trans_out w)))"

text \<open>Lines 386 to 467: the body of the loop once the translations of the sentence are there.\<close>

definition process_sentence ::
  "Sentence \<Rightarrow> string list \<Rightarrow> run_state \<Rightarrow> error + flow \<times> run_state" where
  "process_sentence sentence translations st =
     (let number_of_entities = length (entity_indexes sentence) in
      case verify_translations translations of
        Inl e \<Rightarrow> Inl e
      | Inr (main_unbracketed_translation, Some w) \<Rightarrow>
          Inr (Continue, st\<lparr>warnings := warnings st @ [w]\<rparr>)
      | Inr (main_unbracketed_translation, None) \<Rightarrow>
      (case get_entity_categories sentence of
        Inl e \<Rightarrow> Inl e
      | Inr entity_categories \<Rightarrow>
      (case get_entities sentence of
        Inl e \<Rightarrow> Inl e
      | Inr original_entity_tokens \<Rightarrow>
      (case list_comprehension get_bracketed_entity translations of
        Inl e \<Rightarrow> Inl e
      | Inr translated_entity_tokens \<Rightarrow>
      if \<not> (length entity_categories = length original_entity_tokens
             \<and> length original_entity_tokens = length translated_entity_tokens)
      then Inl AssertionError
      else
      (case make_template main_unbracketed_translation translated_entity_tokens of
        Inl e \<Rightarrow> Inl e
      | Inr template \<Rightarrow>
      (let entity_indexes_index = - 1;
           split_template = split template in
       if count_list split_template TEMPLATE_TOKEN \<noteq> number_of_entities
       then Inr (Continue, st\<lparr>warnings := warnings st @ [TemplateTokenMismatchWarning]\<rparr>)
       else
         (let example_id = str_optional (id_value sentence) @ ''-'' @ str_int entity_indexes_index in
          case Domain_of_value TARGET_LANGUAGE of
            Inl e \<Rightarrow> Inl e
          | Inr dmn \<Rightarrow>
          (let trans_out = add_conll_id_line (trans_file st) example_id dmn;
               orig_out = add_conll_id_line (orig_file st) example_id dmn in
           case walk_template split_template entity_categories original_entity_tokens
                  translated_entity_tokens (entity_indexes_index, orig_out, trans_out) of
             Inl e \<Rightarrow> Inl e
           | Inr (entity_indexes_index, orig_out, trans_out) \<Rightarrow>
             (let st = st\<lparr>trans_file := trans_out, orig_file := orig_out, db_amt := db_amt st + 1\<rparr> in
              if db_amt st \<ge> max_amt then Inr (Break, st)
              else Inr (Continue,
                        st\<lparr>trans_file := trans_file st @ ''\<newline>\<newline>'',
                           orig_file := orig_file st @ ''\<newline>\<newline>''\<rparr>))))))))))"

text \<open>Lines 378 to 384: the translations of the sentence are the next \<open>number_of_entities\<close>
  results; then the rest of the body.\<close>

definition loop_body :: "Sentence \<Rightarrow> result list \<Rightarrow> run_state \<Rightarrow> error + flow \<times> run_state" where
  "loop_body sentence results st =
     (let number_of_entities = length (entity_indexes sentence) in
      case list_comprehension (\<lambda>result. dict_get result TRANSLATED_TEXT_KEY)
             (take number_of_entities (drop (translations_index st) results)) of
        Inl e \<Rightarrow> Inl e
      | Inr translations \<Rightarrow>
          if length translations \<noteq> number_of_entities then Inl AssertionError
          else process_sentence sentence translations
                 (st\<lparr>translations_index := translations_index st + number_of_entities\<rparr>))"

text \<open>Lines 377 to 467: the loop over the sentences; an exception ends the run.\<close>

fun main_loop :: "Sentence list \<Rightarrow> result list \<Rightarrow> run_state \<Rightarrow> error + run_state" where
  "main_loop [] results st = Inr st"
| "main_loop (sentence # rest) results st =
     (case loop_body sentence results st of
        Inl e \<Rightarrow> Inl e
      | Inr (Break, st') \<Rightarrow> Inr st'
      | Inr (Continue, st') \<Rightarrow> main_loop rest results st')"

text \<open>Both output files are opened for writing, so they start empty.\<close>

definition initial_state :: run_state where
  "initial_state =
     \<lparr>trans_file = '''', orig_file = '''', translations_index = 0, db_amt = 0, warnings = []\<rparr>"

section \<open>Example inputs\<close>

text \<open>The sentence of the end-to-end scenario: Tongzhi (B-OtherPER) founded (O) IBM (B-TechCorp).\<close>

definition tongzhi_words :: "Word list" where
  "tongzhi_words =
     [\<lparr>token = ''Tongzhi'', tag = \<lparr>tag_type = TagType_B, tag_category = OtherPER\<rparr>\<rparr>,
      \<lparr>token = ''founded'', tag = \<lparr>tag_type = TagType_O, tag_category = Empty\<rparr>\<rparr>,
      \<lparr>token = ''IBM'', tag = \<lparr>tag_type = TagType_B, tag_category = TechCorp\<rparr>\<rparr>]"

definition tongzhi_sentence :: Sentence where
  "tongzhi_sentence = parsed_sentence (Some ''abc'') (Some EN) tongzhi_words"

text \<open>A translation result with the given translated text.\<close>

definition translated :: "string \<Rightarrow> result" where
  "translated t = [(''translatedText'', t), (''input'', [])]"

text \<open>A sentence of one word, which is an entity.\<close>

definition one_entity_sentence :: "string \<Rightarrow> string \<Rightarrow> TagCategory \<Rightarrow> Sentence" where
  "one_entity_sentence idv tok category =
     parsed_sentence (Some idv) (Some EN)
       [\<lparr>token = tok, tag = \<lparr>tag_type = TagType_B, tag_category = category\<rparr>\<rparr>]"

section \<open>Plain text of a sentence\<close>

text \<open>\<open>sep.join(xs)\<close>.\<close>

fun str_join :: "string \<Rightarrow> string list \<Rightarrow> string" where
  "str_join sep [] = []"
| "str_join sep [x] = x"
| "str_join sep (x # y # ys) = x @ sep @ str_join sep (y # ys)"

text \<open>The plain text of a sentence as the specification words it: its tokens joined by
  single spaces.\<close>

definition spec_plain_text :: "Sentence \<Rightarrow> string" where
  "spec_plain_text s = str_join '' '' (map token (words s))"

text \<open>What the parser's word-line pattern takes as a token (\<open>\S+\<close>, line 335): at least one
  character, none of them whitespace.\<close>

definition is_token :: "string \<Rightarrow> bool" where
  "is_token tok = (tok \<noteq> [] \<and> list_all (\<lambda>c. \<not> is_space c) tok)"

text \<open>Every token with a blank in front, all concatenated: what the bracketing loop builds
  when it adds no bracket (used in the proofs only).\<close>

definition spaced_tokens :: "Word list \<Rightarrow> string" where
  "spaced_tokens ws = concat (map (\<lambda>w. CHR '' '' # token w) ws)"

section \<open>Reconstruction and serialization as the specification describes them\<close>

text \<open>The bracket-stripping function of the specification, \<open>strip_brackets\<close>: the text
  without its bracket markers. It is written without any index, so that it can be compared
  with \<open>remove_brackets\<close>, which cuts the text at the two indexes it has searched.\<close>

definition spec_strip_brackets :: "string \<Rightarrow> string" where
  "spec_strip_brackets t = filter (\<lambda>c. c \<notin> set START_BRACKET \<union> set END_BRACKET) t"

text \<open>The words of one entity as the specification describes them: the first sub-token
  tagged Begin, every following one tagged Inside, all with the category of the entity.\<close>

fun spec_entity_words :: "TagCategory \<Rightarrow> string list \<Rightarrow> Word list" where
  "spec_entity_words category [] = []"
| "spec_entity_words category (first # others) =
     \<lparr>token = first, tag = \<lparr>tag_type = TagType_B, tag_category = category\<rparr>\<rparr>
     # map (\<lambda>t. \<lparr>token = t, tag = \<lparr>tag_type = TagType_I, tag_category = category\<rparr>\<rparr>) others"

text \<open>The words of an output sentence as the specification describes the walk over the split
  template: a placeholder takes the next entity (category and text) and contributes its
  words, any other token contributes itself, tagged Outside. The walk of the specification
  says nothing for a placeholder without an entity left; no word is given then.\<close>

fun spec_walk :: "string list \<Rightarrow> (TagCategory \<times> string) list \<Rightarrow> Word list" where
  "spec_walk [] entities = []"
| "spec_walk (w # rest) entities =
     (if w = TEMPLATE_TOKEN then
        (case entities of
           [] \<Rightarrow> []
         | (category, entity_text) # later \<Rightarrow>
             spec_entity_words category (split entity_text) @ spec_walk rest later)
      else \<lparr>token = w, tag = \<lparr>tag_type = TagType_O, tag_category = Empty\<rparr>\<rparr>
           # spec_walk rest entities)"

text \<open>The serialization format as the specification states it: the id line, a word line, a
  sentence (its id line, then one word line per word).\<close>

definition spec_id_line :: "string \<Rightarrow> string \<Rightarrow> string" where
  "spec_id_line idv code = ''# id '' @ idv @ [CHR 0x09] @ ''domain='' @ code @ ''\<newline>''"

definition spec_word_line :: "Word \<Rightarrow> string" where
  "spec_word_line w = token w @ '' _ _ '' @ tag_format (tag w) @ ''\<newline>''"

definition spec_sentence_text :: "string \<Rightarrow> string \<Rightarrow> Word list \<Rightarrow> string" where
  "spec_sentence_text idv code ws = spec_id_line idv code @ concat (map spec_word_line ws)"

text \<open>An output file as a sequence of sentence texts: each is followed by two newline
  characters, except the one with which the number of emitted sentences reaches \<open>max_amt\<close>,
  where the file ends. The first argument is the number of sentences emitted before.\<close>

fun spec_corpus_text :: "nat \<Rightarrow> string list \<Rightarrow> string" where
  "spec_corpus_text emitted [] = []"
| "spec_corpus_text emitted (t # ts) =
     t @ (if Suc emitted \<ge> max_amt then []
          else ''\<newline>\<newline>'' @ spec_corpus_text (Suc emitted) ts)"

text \<open>The pair of output sentences of one input sentence, as the specification has the
  pipeline: the verifier accepts the translations, the template is built from the canonical
  translation and the translated entity texts, the placeholder count equals the entity count,
  and the reconstructor walks the split template once with the original and once with the
  translated entity texts. The pair comes with its identifier, the id of the source sentence
  followed by \<open>-\<close> and the constant cursor value \<open>-1\<close>. There is no pair for a sentence
  that is rejected, or for which a stage raises.\<close>

definition spec_output_pair ::
  "Sentence \<Rightarrow> string list \<Rightarrow> (string \<times> Word list \<times> Word list) option" where
  "spec_output_pair sentence translations =
     (case verify_translations translations of
        Inl e \<Rightarrow> None
      | Inr (canonical, Some w) \<Rightarrow> None
      | Inr (canonical, None) \<Rightarrow>
      (case get_entity_categories sentence of
        Inl e \<Rightarrow> None
      | Inr entity_categories \<Rightarrow>
      (case get_entities sentence of
        Inl e \<Rightarrow> None
      | Inr original_entity_texts \<Rightarrow>
      (case list_comprehension get_bracketed_entity translations of
        Inl e \<Rightarrow> None
      | Inr translated_entity_texts \<Rightarrow>
      (case make_template canonical translated_entity_texts of
        Inl e \<Rightarrow> None
      | Inr template \<Rightarrow>
          if count_list (split template) TEMPLATE_TOKEN \<noteq> length (entity_indexes sentence)
          then None
          else Some (str_optional (id_value sentence) @ ''--1'',
                     spec_walk (split template) (zip entity_categories original_entity_texts),
                     spec_walk (split template) (zip entity_categories translated_entity_texts)))))))"

text \<open>The pairs of a list of sentences, in input order: each sentence takes as many
  translation results as it has entities, starting where the sentence before it stopped.\<close>

fun spec_output_pairs ::
  "Sentence list \<Rightarrow> result list \<Rightarrow> nat \<Rightarrow> (string \<times> Word list \<times> Word list) list" where
  "spec_output_pairs [] results first_result = []"
| "spec_output_pairs (sentence # rest) results first_result =
     (let number_of_entities = length (entity_indexes sentence) in
      (case list_comprehension (\<lambda>result. dict_get result TRANSLATED_TEXT_KEY)
              (take number_of_entities (drop first_result results)) of
         Inl e \<Rightarrow> []
       | Inr translations \<Rightarrow>
           (case spec_output_pair sentence translations of None \<Rightarrow> [] | Some pair \<Rightarrow> [pair]))
      @ spec_output_pairs rest results (first_result + number_of_entities))"

section \<open>The entity index invariant\<close>

lemma add_word_words: "words (add_word s w) = words s @ [w]"
  by (simp add: add_word_def Let_def)

lemma add_word_entity_indexes:
  "entity_indexes (add_word s w) =
     entity_indexes s @ (if tag_type (tag w) = TagType_B then [length (words s)] else [])"
  by (simp add: add_word_def Let_def)

lemma foldl_add_word_words: "words (foldl add_word s ws) = words s @ ws"
  by (induction ws arbitrary: s) (simp_all add: add_word_words)

lemma begin_positions_snoc:
  "filter (\<lambda>i. tag_type (tag ((ws @ [w]) ! i)) = TagType_B) [0..<length (ws @ [w])] =
   filter (\<lambda>i. tag_type (tag (ws ! i)) = TagType_B) [0..<length ws]
   @ (if tag_type (tag w) = TagType_B then [length ws] else [])"
proof -
  have "filter (\<lambda>i. tag_type (tag ((ws @ [w]) ! i)) = TagType_B) [0..<length ws] =
        filter (\<lambda>i. tag_type (tag (ws ! i)) = TagType_B) [0..<length ws]"
    by (rule filter_cong) (simp_all add: nth_append)
  then show ?thesis by simp
qed

lemma foldl_add_word_entity_indexes:
  assumes "entity_indexes s = filter (\<lambda>i. tag_type (tag (words s ! i)) = TagType_B) [0..<length (words s)]"
  shows "entity_indexes (foldl add_word s ws) =
         filter (\<lambda>i. tag_type (tag ((words s @ ws) ! i)) = TagType_B) [0..<length (words s @ ws)]"
  using assms
proof (induction ws arbitrary: s)
  case Nil
  then show ?case by simp
next
  case (Cons w ws)
  have "entity_indexes (add_word s w) =
        filter (\<lambda>i. tag_type (tag (words (add_word s w) ! i)) = TagType_B)
          [0..<length (words (add_word s w))]"
    unfolding add_word_words add_word_entity_indexes begin_positions_snoc
    using Cons.prems by simp
  from Cons.IH [OF this] show ?case
    by (simp add: add_word_words)
qed

text \<open>
  Claim C8. A sentence built from an empty \<open>Sentence()\<close> by any sequence of \<open>add_word\<close> calls
  holds exactly the appended words, and its \<open>entity_indexes\<close> is the ascending list of the
  positions whose word is tagged Begin. Each single \<open>add_word\<close> keeps this up by appending at
  most the one new position to the existing list.
\<close>

theorem entity_indexes_invariant:
  "words (parsed_sentence idv dmn ws) = ws
   \<and> entity_indexes (parsed_sentence idv dmn ws) =
       filter (\<lambda>i. tag_type (tag (ws ! i)) = TagType_B) [0..<length ws]
   \<and> sorted_wrt (<) (entity_indexes (parsed_sentence idv dmn ws))
   \<and> entity_indexes (add_word (parsed_sentence idv dmn ws) w) =
       entity_indexes (parsed_sentence idv dmn ws)
       @ (if tag_type (tag w) = TagType_B then [length ws] else [])"
proof -
  let ?s0 = "Sentence_init\<lparr>id_value := idv, domain := dmn\<rparr>"
  have w: "words (parsed_sentence idv dmn ws) = ws"
    by (simp add: parsed_sentence_def foldl_add_word_words Sentence_init_def)
  have "entity_indexes ?s0 =
        filter (\<lambda>i. tag_type (tag (words ?s0 ! i)) = TagType_B) [0..<length (words ?s0)]"
    by (simp add: Sentence_init_def)
  from foldl_add_word_entity_indexes [OF this, of ws]
  have e: "entity_indexes (parsed_sentence idv dmn ws) =
           filter (\<lambda>i. tag_type (tag (ws ! i)) = TagType_B) [0..<length ws]"
    by (simp add: parsed_sentence_def Sentence_init_def)
  have s: "sorted_wrt (<) (entity_indexes (parsed_sentence idv dmn ws))"
    unfolding e by (rule sorted_wrt_filter) simp
  show ?thesis
    using w e s by (simp add: add_word_entity_indexes)
qed


section \<open>Facts about the string primitives and the bracket helpers\<close>

lemma str_count_from_char: "str_count_from 0 [c] s = count_list s c"
  by (induction s) auto

lemma str_count_char: "str_count s [c] = count_list s c"
  by (simp add: str_count_def str_count_from_char)

lemma check_brackets_iff: "check_brackets s = (count_list s (CHR 0x22) = 2)"
  by (simp add: check_brackets_def START_BRACKET_def END_BRACKET_def str_count_char)

lemma str_find_char_append:
  "c \<notin> set a \<Longrightarrow> str_find [c] (a @ c # r) = Some (length a)"
  by (induction a) auto

lemma str_find_char_None: "c \<notin> set s \<Longrightarrow> str_find [c] s = None"
  by (induction s) auto

lemma filter_notin_id: "c \<notin> set a \<Longrightarrow> filter (\<lambda>x. x \<noteq> c) a = a"
  by (induction a) auto

lemma count_list_two_split:
  assumes "count_list s c = 2"
  shows "\<exists>a b r. s = a @ c # b @ c # r \<and> c \<notin> set a \<and> c \<notin> set b \<and> c \<notin> set r"
proof -
  from assms have "c \<in> set s"
    by (metis count_list_0_iff zero_neq_numeral)
  then obtain a t where s: "s = a @ c # t" and a: "c \<notin> set a"
    by (meson split_list_first)
  from assms s a have t1: "count_list t c = 1"
    by (simp add: count_list_0_iff)
  then have "c \<in> set t"
    by (metis count_list_0_iff zero_neq_one)
  then obtain b r where t: "t = b @ c # r" and b: "c \<notin> set b"
    by (meson split_list_first)
  from t1 t b have "count_list r c = 0"
    by (simp add: count_list_0_iff)
  then have "c \<notin> set r"
    by (simp add: count_list_0_iff)
  with s t a b show ?thesis by blast
qed

lemma get_bracket_indexes_split:
  assumes "CHR 0x22 \<notin> set a" "CHR 0x22 \<notin> set b" "CHR 0x22 \<notin> set r"
  shows "get_bracket_indexes (a @ CHR 0x22 # b @ CHR 0x22 # r) = Inr (length a, length a + 1 + length b)"
proof -
  have c: "check_brackets (a @ CHR 0x22 # b @ CHR 0x22 # r)"
    using assms by (simp add: check_brackets_iff count_list_0_iff)
  have i1: "str_index (a @ CHR 0x22 # b @ CHR 0x22 # r) START_BRACKET = Inr (length a)"
    using assms(1) by (simp add: str_index_def START_BRACKET_def str_find_char_append)
  have i2: "str_index (drop (length a + 1) (a @ CHR 0x22 # b @ CHR 0x22 # r)) END_BRACKET = Inr (length b)"
    using assms(2) by (simp add: str_index_def END_BRACKET_def str_find_char_append)
  show ?thesis
    unfolding get_bracket_indexes_def using c i1 i2 by simp
qed

lemma remove_brackets_split:
  assumes "CHR 0x22 \<notin> set a" "CHR 0x22 \<notin> set b" "CHR 0x22 \<notin> set r"
  shows "remove_brackets (a @ CHR 0x22 # b @ CHR 0x22 # r) = Inr (a @ b @ r)"
proof -
  have c: "check_brackets (a @ CHR 0x22 # b @ CHR 0x22 # r)"
    using assms by (simp add: check_brackets_iff count_list_0_iff)
  show ?thesis
    unfolding remove_brackets_def get_bracket_indexes_split [OF assms] using c by simp
qed

lemma get_bracketed_entity_split:
  assumes "CHR 0x22 \<notin> set a" "CHR 0x22 \<notin> set b" "CHR 0x22 \<notin> set r"
  shows "get_bracketed_entity (a @ CHR 0x22 # b @ CHR 0x22 # r) = Inr b"
proof -
  have c: "check_brackets (a @ CHR 0x22 # b @ CHR 0x22 # r)"
    using assms by (simp add: check_brackets_iff count_list_0_iff)
  show ?thesis
    unfolding get_bracketed_entity_def get_bracket_indexes_split [OF assms] using c by simp
qed

lemma remove_brackets_checked:
  assumes "check_brackets s"
  shows "remove_brackets s = Inr (filter (\<lambda>c. c \<noteq> CHR 0x22) s)"
proof -
  from assms have "count_list s (CHR 0x22) = 2"
    by (simp add: check_brackets_iff)
  from count_list_two_split [OF this]
  obtain a b r where s: "s = a @ CHR 0x22 # b @ CHR 0x22 # r"
    and n: "CHR 0x22 \<notin> set a" "CHR 0x22 \<notin> set b" "CHR 0x22 \<notin> set r"
    by auto
  have "filter (\<lambda>c. c \<noteq> CHR 0x22) s = a @ b @ r"
    unfolding s using n by (simp add: filter_notin_id)
  then show ?thesis
    unfolding s using remove_brackets_split [OF n] by simp
qed

lemma remove_brackets_unchecked: "\<not> check_brackets s \<Longrightarrow> remove_brackets s = Inl AssertionError"
  by (simp add: remove_brackets_def)

lemma get_bracketed_entity_checked:
  assumes "check_brackets s"
  shows "\<exists>b. get_bracketed_entity s = Inr b"
proof -
  from assms have "count_list s (CHR 0x22) = 2"
    by (simp add: check_brackets_iff)
  from count_list_two_split [OF this]
  obtain a b r where s: "s = a @ CHR 0x22 # b @ CHR 0x22 # r"
    and n: "CHR 0x22 \<notin> set a" "CHR 0x22 \<notin> set b" "CHR 0x22 \<notin> set r"
    by auto
  show ?thesis
    unfolding s using get_bracketed_entity_split [OF n] by simp
qed

lemma list_comprehension_Inr:
  "list_comprehension f xs = Inr ys \<Longrightarrow> list_all2 (\<lambda>x y. f x = Inr y) xs ys"
  by (induction xs arbitrary: ys) (auto split: sum.splits)

lemma list_comprehension_Inl:
  "list_comprehension f xs = Inl e \<Longrightarrow> \<exists>x \<in> set xs. f x = Inl e"
  by (induction xs) (auto split: sum.splits)

lemma list_comprehension_total:
  "\<forall>x \<in> set xs. f x = Inr (g x) \<Longrightarrow> list_comprehension f xs = Inr (map g xs)"
  by (induction xs) auto


lemma check_translations_checked:
  assumes "\<forall>t \<in> set ts. check_brackets t"
  shows "check_translations m ts =
         (if \<forall>t \<in> set ts. remove_brackets t = Inr m then Inr None
          else Inr (Some TranslationMismatchWarning))"
  using assms
proof (induction ts)
  case Nil
  then show ?case by simp
next
  case (Cons t ts)
  then have c: "check_brackets t" and r: "remove_brackets t = Inr (filter (\<lambda>c. c \<noteq> CHR 0x22) t)"
    by (simp_all add: remove_brackets_checked)
  from Cons show ?case
    using c r by auto
qed

section \<open>The consistency check\<close>

lemma list_index_0: "xs \<noteq> [] \<Longrightarrow> list_index xs 0 = Inr (xs ! 0)"
  by (simp add: list_index_def)

lemma list_index_Nil: "list_index [] i = Inl IndexError"
  by (simp add: list_index_def)

lemma parsed_sentence_no_entities:
  assumes "\<forall>w \<in> set ws. tag_type (tag w) \<noteq> TagType_B"
  shows "entity_indexes (parsed_sentence idv dmn ws) = []"
proof -
  have "entity_indexes (foldl add_word s ws) = entity_indexes s" for s
    using assms by (induction ws arbitrary: s) (simp_all add: add_word_entity_indexes)
  then show ?thesis
    by (simp add: parsed_sentence_def Sentence_init_def)
qed

lemma process_sentence_no_translations: "process_sentence s [] st = Inl IndexError"
  by (simp add: process_sentence_def verify_translations_def list_index_Nil)

lemma loop_body_no_entities:
  "entity_indexes s = [] \<Longrightarrow> loop_body s results st = Inl IndexError"
  by (simp add: loop_body_def process_sentence_no_translations)

text \<open>
  Claim C10. A parsed sentence without a Begin-tagged word has no entity, so its list of
  translations is empty, and the loop body raises IndexError at \<open>translations[0]\<close> before
  any check is made. Nothing catches it: the loop over the sentences, and with it the run,
  ends with that exception when it reaches such a sentence.
\<close>

theorem zero_entity_sentence_raises:
  assumes "\<forall>w \<in> set ws. tag_type (tag w) \<noteq> TagType_B"
  shows "loop_body (parsed_sentence idv dmn ws) results st = Inl IndexError
         \<and> main_loop (parsed_sentence idv dmn ws # rest) results st = Inl IndexError"
  using parsed_sentence_no_entities [OF assms, of idv dmn]
  by (simp add: loop_body_no_entities)

theorem zero_entity_sentence_raises_witness:
  "tag_type (tag \<lparr>token = ''founded'', tag = \<lparr>tag_type = TagType_O, tag_category = Empty\<rparr>\<rparr>)
     \<noteq> TagType_B
   \<and> main_loop
       [parsed_sentence (Some ''abc'') (Some EN)
          [\<lparr>token = ''founded'', tag = \<lparr>tag_type = TagType_O, tag_category = Empty\<rparr>\<rparr>]]
       [] initial_state = Inl IndexError"
  using zero_entity_sentence_raises
    [of "[\<lparr>token = ''founded'', tag = \<lparr>tag_type = TagType_O, tag_category = Empty\<rparr>\<rparr>]"
        "Some ''abc''" "Some EN" "[]" initial_state "[]"]
  by simp

lemma process_sentence_skip:
  "verify_translations ts = Inr (m, Some w)
   \<Longrightarrow> process_sentence s ts st = Inr (Continue, st\<lparr>warnings := warnings st @ [w]\<rparr>)"
  by (simp add: process_sentence_def)

lemma verify_translations_checked:
  assumes "translations \<noteq> []" and "\<forall>t \<in> set translations. check_brackets t"
  shows "\<exists>m. remove_brackets (translations ! 0) = Inr m
           \<and> verify_translations translations =
               Inr (m, if \<forall>t \<in> set translations. remove_brackets t = Inr m then None
                       else Some TranslationMismatchWarning)"
proof -
  from assms have "check_brackets (translations ! 0)"
    by (cases "translations") simp_all
  then obtain m where m: "remove_brackets (translations ! 0) = Inr m"
    by (simp add: remove_brackets_checked)
  show ?thesis
    using m assms
    by (simp add: verify_translations_def list_index_0 check_translations_checked)
qed

lemma remove_brackets_spec:
  "check_brackets t \<Longrightarrow> remove_brackets t = Inr (spec_strip_brackets t)"
  by (simp add: remove_brackets_checked spec_strip_brackets_def START_BRACKET_def END_BRACKET_def)

lemma verify_translations_spec:
  assumes "translations \<noteq> []" and "\<forall>t \<in> set translations. check_brackets t"
  shows "verify_translations translations =
           Inr (spec_strip_brackets (translations ! 0),
                if \<forall>t \<in> set translations. spec_strip_brackets t = spec_strip_brackets (translations ! 0)
                then None else Some TranslationMismatchWarning)"
proof -
  from assms have c0: "check_brackets (translations ! 0)"
    by (cases "translations") simp_all
  from verify_translations_checked [OF assms] obtain m
    where m: "remove_brackets (translations ! 0) = Inr m"
      and v: "verify_translations translations =
               Inr (m, if \<forall>t \<in> set translations. remove_brackets t = Inr m then None
                       else Some TranslationMismatchWarning)"
    by blast
  from m remove_brackets_spec [OF c0] have m': "m = spec_strip_brackets (translations ! 0)"
    by simp
  have "(\<forall>t \<in> set translations. remove_brackets t = Inr m)
        = (\<forall>t \<in> set translations. spec_strip_brackets t = spec_strip_brackets (translations ! 0))"
    using assms(2) by (auto simp: remove_brackets_spec m')
  with v show ?thesis unfolding m' by simp
qed

text \<open>
  Claim C2. Take a sentence with at least one translation (the claim speaks of
  \<open>translations[0]\<close>; the sentence without any is claim C10), all of whose translations pass
  the bracket check. Then \<open>remove_brackets\<close> returns, for every translation, the translation
  without its bracket markers; the canonical text is the first translation without its
  markers; and the check accepts (no warning, the body goes on to the reconstruction) exactly
  when every translation without its markers equals the canonical text, which is the same as
  all of them being pairwise equal. Otherwise the sentence is rejected with a translation
  mismatch warning and the loop body continues with both output files untouched.
\<close>

theorem consistency_verifier_accepts_iff_equal:
  assumes "translations \<noteq> []" and "\<forall>t \<in> set translations. check_brackets t"
  shows "(\<forall>t \<in> set translations. remove_brackets t = Inr (spec_strip_brackets t))
       \<and> (if \<forall>t \<in> set translations. spec_strip_brackets t = spec_strip_brackets (translations ! 0)
          then verify_translations translations = Inr (spec_strip_brackets (translations ! 0), None)
          else verify_translations translations =
                 Inr (spec_strip_brackets (translations ! 0), Some TranslationMismatchWarning)
               \<and> process_sentence sentence translations st =
                   Inr (Continue, st\<lparr>warnings := warnings st @ [TranslationMismatchWarning]\<rparr>))
       \<and> ((\<forall>t \<in> set translations. spec_strip_brackets t = spec_strip_brackets (translations ! 0))
           = (\<forall>t \<in> set translations. \<forall>u \<in> set translations.
                spec_strip_brackets t = spec_strip_brackets u))"
proof -
  note v = verify_translations_spec [OF assms]
  have r: "\<forall>t \<in> set translations. remove_brackets t = Inr (spec_strip_brackets t)"
    using assms(2) by (simp add: remove_brackets_spec)
  have mem: "translations ! 0 \<in> set translations"
    using assms(1) by simp
  have eq: "(\<forall>t \<in> set translations. spec_strip_brackets t = spec_strip_brackets (translations ! 0))
           = (\<forall>t \<in> set translations. \<forall>u \<in> set translations.
                spec_strip_brackets t = spec_strip_brackets u)"
    using mem by metis
  have c: "if \<forall>t \<in> set translations. spec_strip_brackets t = spec_strip_brackets (translations ! 0)
          then verify_translations translations = Inr (spec_strip_brackets (translations ! 0), None)
          else verify_translations translations =
                 Inr (spec_strip_brackets (translations ! 0), Some TranslationMismatchWarning)
               \<and> process_sentence sentence translations st =
                   Inr (Continue, st\<lparr>warnings := warnings st @ [TranslationMismatchWarning]\<rparr>)"
  proof (cases "\<forall>t \<in> set translations. spec_strip_brackets t = spec_strip_brackets (translations ! 0)")
    case True
    with v show ?thesis by simp
  next
    case False
    with v have "verify_translations translations =
                   Inr (spec_strip_brackets (translations ! 0), Some TranslationMismatchWarning)"
      by simp
    with False process_sentence_skip [OF this, of sentence st] show ?thesis by simp
  qed
  show ?thesis
    by (intro conjI) (rule r, rule c, rule eq)
qed

text \<open>The accepting scenario of the specification (the two bracketed translations of
  \<open>Tongzhi founded IBM\<close>), and a rejected one, where the second translation has another
  verb.\<close>

theorem consistency_verifier_accepts_iff_equal_witness:
  "check_brackets (CHR 0x22 # ''Tongzhi'' @ CHR 0x22 # '' founded IBM'')
   \<and> check_brackets (''Tongzhi founded '' @ CHR 0x22 # ''IBM'' @ [CHR 0x22])
   \<and> check_brackets (''Tongzhi created '' @ CHR 0x22 # ''IBM'' @ [CHR 0x22])
   \<and> verify_translations
        [CHR 0x22 # ''Tongzhi'' @ CHR 0x22 # '' founded IBM'',
         ''Tongzhi founded '' @ CHR 0x22 # ''IBM'' @ [CHR 0x22]] =
       Inr (''Tongzhi founded IBM'', None)
   \<and> verify_translations
        [CHR 0x22 # ''Tongzhi'' @ CHR 0x22 # '' founded IBM'',
         ''Tongzhi created '' @ CHR 0x22 # ''IBM'' @ [CHR 0x22]] =
       Inr (''Tongzhi founded IBM'', Some TranslationMismatchWarning)
   \<and> process_sentence tongzhi_sentence
        [CHR 0x22 # ''Tongzhi'' @ CHR 0x22 # '' founded IBM'',
         ''Tongzhi created '' @ CHR 0x22 # ''IBM'' @ [CHR 0x22]] initial_state =
       Inr (Continue, initial_state\<lparr>warnings := [TranslationMismatchWarning]\<rparr>)"
proof -
  let ?a = "CHR 0x22 # ''Tongzhi'' @ CHR 0x22 # '' founded IBM''"
  let ?b = "''Tongzhi founded '' @ CHR 0x22 # ''IBM'' @ [CHR 0x22]"
  let ?c = "''Tongzhi created '' @ CHR 0x22 # ''IBM'' @ [CHR 0x22]"
  have ca: "check_brackets ?a" and cb: "check_brackets ?b" and cc: "check_brackets ?c"
    by (simp_all add: check_brackets_iff)
  have sa: "spec_strip_brackets ?a = ''Tongzhi founded IBM''"
    and sb: "spec_strip_brackets ?b = ''Tongzhi founded IBM''"
    and sc: "spec_strip_brackets ?c = ''Tongzhi created IBM''"
    by (simp_all add: spec_strip_brackets_def START_BRACKET_def END_BRACKET_def)
  have n1: "[?a, ?b] \<noteq> []" and n2: "[?a, ?c] \<noteq> []" by simp_all
  have h1: "\<forall>t \<in> set [?a, ?b]. check_brackets t" using ca cb by simp
  have h2: "\<forall>t \<in> set [?a, ?c]. check_brackets t" using ca cc by simp
  have acc: "\<forall>t \<in> set [?a, ?b]. spec_strip_brackets t = spec_strip_brackets ([?a, ?b] ! 0)"
    using sa sb by simp
  have rej: "\<not> (\<forall>t \<in> set [?a, ?c]. spec_strip_brackets t = spec_strip_brackets ([?a, ?c] ! 0))"
    using sa sc by simp
  from consistency_verifier_accepts_iff_equal [OF n1 h1, of tongzhi_sentence initial_state]
  have "if \<forall>t \<in> set [?a, ?b]. spec_strip_brackets t = spec_strip_brackets ([?a, ?b] ! 0)
        then verify_translations [?a, ?b] = Inr (spec_strip_brackets ([?a, ?b] ! 0), None)
        else verify_translations [?a, ?b] =
               Inr (spec_strip_brackets ([?a, ?b] ! 0), Some TranslationMismatchWarning)
             \<and> process_sentence tongzhi_sentence [?a, ?b] initial_state =
                 Inr (Continue, initial_state\<lparr>warnings := warnings initial_state @ [TranslationMismatchWarning]\<rparr>)"
    by (elim conjE)
  with acc have "verify_translations [?a, ?b] = Inr (spec_strip_brackets ([?a, ?b] ! 0), None)"
    by (simp only: if_True)
  then have v1: "verify_translations [?a, ?b] = Inr (''Tongzhi founded IBM'', None)"
    by (simp only: nth_Cons_0 sa)
  from consistency_verifier_accepts_iff_equal [OF n2 h2, of tongzhi_sentence initial_state]
  have "if \<forall>t \<in> set [?a, ?c]. spec_strip_brackets t = spec_strip_brackets ([?a, ?c] ! 0)
        then verify_translations [?a, ?c] = Inr (spec_strip_brackets ([?a, ?c] ! 0), None)
        else verify_translations [?a, ?c] =
               Inr (spec_strip_brackets ([?a, ?c] ! 0), Some TranslationMismatchWarning)
             \<and> process_sentence tongzhi_sentence [?a, ?c] initial_state =
                 Inr (Continue, initial_state\<lparr>warnings := warnings initial_state @ [TranslationMismatchWarning]\<rparr>)"
    by (elim conjE)
  with rej have "verify_translations [?a, ?c] =
               Inr (spec_strip_brackets ([?a, ?c] ! 0), Some TranslationMismatchWarning)
             \<and> process_sentence tongzhi_sentence [?a, ?c] initial_state =
                 Inr (Continue, initial_state\<lparr>warnings := warnings initial_state @ [TranslationMismatchWarning]\<rparr>)"
    by (simp only: if_False)
  then have v2: "verify_translations [?a, ?c] = Inr (''Tongzhi founded IBM'', Some TranslationMismatchWarning)"
    and p2: "process_sentence tongzhi_sentence [?a, ?c] initial_state =
               Inr (Continue, initial_state\<lparr>warnings := [TranslationMismatchWarning]\<rparr>)"
    by (simp_all only: nth_Cons_0 sa) (simp add: initial_state_def)
  show ?thesis
    by (intro conjI) (rule ca, rule cb, rule cc, rule v1, rule v2, rule p2)
qed

text \<open>Whatever the sentence, a first translation that fails the bracket check ends the body
  with the failed assertion of \<open>remove_brackets\<close>.\<close>

lemma process_sentence_first_unbracketed:
  assumes "translations \<noteq> []" and "\<not> check_brackets (translations ! 0)"
  shows "process_sentence s translations st = Inl AssertionError"
  using assms
  by (simp add: process_sentence_def verify_translations_def list_index_0 remove_brackets_unchecked)

text \<open>
  Claim C1. The loop over the translations does skip a sentence whose second translation has
  lost a bracket: a brackets-not-found warning is issued and both files stay empty. When it is
  the first translation that has lost its brackets, \<open>remove_brackets(translations[0])\<close> runs
  before that loop and its assertion fails: the body ends with AssertionError instead of
  the warning.
\<close>

theorem first_translation_without_brackets_raises:
  "loop_body tongzhi_sentence
     [translated (CHR 0x22 # ''Tongzhi'' @ CHR 0x22 # '' founded IBM''),
      translated (''Tongzhi founded '' @ CHR 0x22 # ''IBM'')]
     initial_state =
     Inr (Continue, initial_state\<lparr>translations_index := 2, warnings := [BracketsNotFoundWarning]\<rparr>)
   \<and> loop_body tongzhi_sentence
     [translated ''Tongzhi founded IBM'',
      translated (''Tongzhi founded '' @ CHR 0x22 # ''IBM'' @ [CHR 0x22])]
     initial_state = Inl AssertionError
   \<and> main_loop [tongzhi_sentence]
     [translated ''Tongzhi founded IBM'',
      translated (''Tongzhi founded '' @ CHR 0x22 # ''IBM'' @ [CHR 0x22])]
     initial_state = Inl AssertionError"
proof -
  have a: "loop_body tongzhi_sentence
     [translated (CHR 0x22 # ''Tongzhi'' @ CHR 0x22 # '' founded IBM''),
      translated (''Tongzhi founded '' @ CHR 0x22 # ''IBM'')]
     initial_state =
     Inr (Continue, initial_state\<lparr>translations_index := 2, warnings := [BracketsNotFoundWarning]\<rparr>)"
    by code_simp
  have b: "loop_body tongzhi_sentence
     [translated ''Tongzhi founded IBM'',
      translated (''Tongzhi founded '' @ CHR 0x22 # ''IBM'' @ [CHR 0x22])]
     initial_state = Inl AssertionError"
    by code_simp
  have c: "main_loop [tongzhi_sentence]
     [translated ''Tongzhi founded IBM'',
      translated (''Tongzhi founded '' @ CHR 0x22 # ''IBM'' @ [CHR 0x22])]
     initial_state = Inl AssertionError"
    by code_simp
  show ?thesis by (intro conjI) (rule a, rule b, rule c)
qed

section \<open>Bracketing\<close>

lemma spaced_tokens_simps [simp]:
  "spaced_tokens [] = []"
  "spaced_tokens (w # ws) = CHR '' '' # token w @ spaced_tokens ws"
  "spaced_tokens (us @ vs) = spaced_tokens us @ spaced_tokens vs"
  by (simp_all add: spaced_tokens_def)

lemma spaced_tokens_join: "ws \<noteq> [] \<Longrightarrow> spaced_tokens ws = CHR '' '' # str_join '' '' (map token ws)"
  by (induction ws rule: induct_list012) auto

lemma bracket_loop_after:
  "e < i \<Longrightarrow> bracket_loop e i ws (bs, False) = Inr (bs @ spaced_tokens ws, False)"
  by (induction ws arbitrary: i bs) (auto simp: Let_def)

lemma bracket_loop_inside_all:
  "e < i \<Longrightarrow> \<forall>w \<in> set ws. tag_type (tag w) = TagType_I \<Longrightarrow>
   bracket_loop e i ws (bs, True) = Inr (bs @ spaced_tokens ws, True)"
  by (induction ws arbitrary: i bs) (simp_all add: Let_def)

lemma bracket_loop_inside_close:
  assumes "e < i" and "\<forall>w \<in> set ent. tag_type (tag w) = TagType_I"
    and "tag_type (tag w) \<noteq> TagType_I"
  shows "bracket_loop e i (ent @ w # r) (bs, True) =
           Inr (bs @ spaced_tokens ent @ CHR 0x22 # spaced_tokens (w # r), False)"
  using assms(1,2)
proof (induction ent arbitrary: i bs)
  case Nil
  from assms(3) have "tag_type (tag w) = TagType_O \<or> tag_type (tag w) = TagType_B"
    by (cases "tag_type (tag w)") simp_all
  with assms(3) Nil show ?case
    by (simp add: Let_def END_BRACKET_def bracket_loop_after)
next
  case (Cons u ent)
  then show ?case by (simp add: Let_def)
qed

lemma bracket_loop_before:
  "bracket_loop (i + length pre) i (pre @ we # post) (bs, False) =
     bracket_loop (i + length pre) (Suc (i + length pre)) post
       (bs @ spaced_tokens pre @ CHR '' '' # CHR 0x22 # token we, True)"
proof (induction pre arbitrary: i bs)
  case Nil
  then show ?case by (simp add: Let_def START_BRACKET_def)
next
  case (Cons u pre)
  from Cons [of "Suc i" "bs @ CHR '' '' # token u"] show ?case
    by (simp add: Let_def)
qed

lemma bracket_loop_out_of_range:
  "i + length ws \<le> e \<Longrightarrow>
   bracket_loop e i ws (bs, False) = Inr (bs @ spaced_tokens ws, False)"
  by (induction ws arbitrary: i bs) (simp_all add: Let_def)

lemma bracket_loop_entity:
  assumes "\<forall>w \<in> set ent. tag_type (tag w) = TagType_I"
    and "rest = [] \<or> tag_type (tag (hd rest)) \<noteq> TagType_I"
  shows "bracket_loop (length pre) 0 (pre @ we # ent @ rest) ([], False) =
           Inr (if rest = []
                then (spaced_tokens pre @ CHR '' '' # CHR 0x22 # token we @ spaced_tokens ent, True)
                else (spaced_tokens pre @ CHR '' '' # CHR 0x22 # token we @ spaced_tokens ent
                      @ CHR 0x22 # spaced_tokens rest, False))"
proof (cases rest)
  case Nil
  with assms(1) bracket_loop_before [of 0 pre we ent "[]"] show ?thesis
    by (simp add: bracket_loop_inside_all)
next
  case (Cons w r)
  with assms(2) have "tag_type (tag w) \<noteq> TagType_I" by simp
  from bracket_loop_inside_close [OF _ assms(1) this, of "length pre" "Suc (length pre)" r]
    bracket_loop_before [of 0 pre we "ent @ rest" "[]"] Cons
  show ?thesis by simp
qed

text \<open>Every position below the length splits the words into the part before the entity,
  its first word, its Inside words and the rest.\<close>

lemma entity_decomposition:
  assumes "e < length ws"
  shows "\<exists>pre we ent rest. ws = pre @ we # ent @ rest \<and> length pre = e
           \<and> (\<forall>w \<in> set ent. tag_type (tag w) = TagType_I)
           \<and> (rest = [] \<or> tag_type (tag (hd rest)) \<noteq> TagType_I)"
proof -
  let ?post = "drop (Suc e) ws"
  let ?ent = "takeWhile (\<lambda>w. tag_type (tag w) = TagType_I) ?post"
  let ?rest = "dropWhile (\<lambda>w. tag_type (tag w) = TagType_I) ?post"
  have 1: "ws = take e ws @ ws ! e # ?ent @ ?rest"
    using assms by (simp add: id_take_nth_drop [symmetric])
  have 2: "length (take e ws) = e"
    using assms by simp
  have 3: "\<forall>w \<in> set ?ent. tag_type (tag w) = TagType_I"
    by (auto dest: set_takeWhileD)
  have 4: "?rest = [] \<or> tag_type (tag (hd ?rest)) \<noteq> TagType_I"
    using hd_dropWhile [of "\<lambda>w. tag_type (tag w) = TagType_I" ?post] by blast
  from 1 2 3 4 show ?thesis by blast
qed


lemma bracketed_sentence_of_entity:
  assumes "\<forall>w \<in> set ent. tag_type (tag w) = TagType_I"
    and "rest = [] \<or> tag_type (tag (hd rest)) \<noteq> TagType_I"
  shows "bracketed_sentence_of (pre @ we # ent @ rest) (length pre) =
           (if \<not> check_brackets (strip (spaced_tokens pre @ CHR '' '' # CHR 0x22 # token we
                   @ spaced_tokens ent @ CHR 0x22 # spaced_tokens rest))
            then Inl ValueError
            else Inr (strip (spaced_tokens pre @ CHR '' '' # CHR 0x22 # token we
                   @ spaced_tokens ent @ CHR 0x22 # spaced_tokens rest)))"
  unfolding bracketed_sentence_of_def bracket_loop_entity [OF assms]
  by (simp add: END_BRACKET_def)

lemma bracketed_sentence_of_out_of_range:
  "length ws \<le> e \<Longrightarrow>
   bracketed_sentence_of ws e =
     (if \<not> check_brackets (strip (spaced_tokens ws)) then Inl ValueError
      else Inr (strip (spaced_tokens ws)))"
  unfolding bracketed_sentence_of_def by (simp add: bracket_loop_out_of_range)

lemma bracketed_sentence_of_cases:
  "bracketed_sentence_of ws e = Inl ValueError
   \<or> (\<exists>b. bracketed_sentence_of ws e = Inr b \<and> check_brackets b)"
proof (cases "e < length ws")
  case True
  from entity_decomposition [OF this] obtain pre we ent rest
    where d: "ws = pre @ we # ent @ rest" "length pre = e"
      "\<forall>w \<in> set ent. tag_type (tag w) = TagType_I"
      "rest = [] \<or> tag_type (tag (hd rest)) \<noteq> TagType_I"
    by blast
  from bracketed_sentence_of_entity [OF d(3,4), of pre we] show ?thesis
    unfolding d(1) d(2) [symmetric] by (simp split: if_splits)
next
  case False
  then have "length ws \<le> e" by simp
  from bracketed_sentence_of_out_of_range [OF this] show ?thesis
    by (simp split: if_splits)
qed

lemma list_comprehension_length:
  "list_comprehension f xs = Inr ys \<Longrightarrow> length ys = length xs"
  by (induction xs arbitrary: ys) (auto split: sum.splits)

text \<open>
  Claim C3. When \<open>get_bracketed_sentences\<close> returns, it returns one string per entry of
  \<open>entity_indexes\<close>, the k-th string being the one built for the k-th entry (so in the order
  of the entries, which is ascending by claim C8), and each string holds the bracket
  character exactly twice. When it does not return, the exception is ValueError, raised for
  an entry whose string failed the check; the assertions in it never fail.
\<close>

theorem bracketed_sentences_postcondition:
  "(case get_bracketed_sentences s of
      Inr bs \<Rightarrow>
        length bs = length (entity_indexes s)
        \<and> (\<forall>k < length bs.
              bracketed_sentence_of (words s) (entity_indexes s ! k) = Inr (bs ! k)
              \<and> count_list (bs ! k) (CHR 0x22) = 2)
    | Inl e \<Rightarrow>
        e = ValueError
        \<and> (\<exists>i \<in> set (entity_indexes s). bracketed_sentence_of (words s) i = Inl ValueError))"
proof (cases "list_comprehension (bracketed_sentence_of (words s)) (entity_indexes s)")
  case (Inl e)
  from list_comprehension_Inl [OF this] obtain i
    where i: "i \<in> set (entity_indexes s)" "bracketed_sentence_of (words s) i = Inl e"
    by blast
  with bracketed_sentence_of_cases [of "words s" i] have "e = ValueError" by auto
  with i Inl show ?thesis
    by (auto simp: get_bracketed_sentences_def)
next
  case (Inr bs)
  from list_comprehension_length [OF this] have len: "length bs = length (entity_indexes s)" .
  have "bracketed_sentence_of (words s) (entity_indexes s ! k) = Inr (bs ! k)
        \<and> count_list (bs ! k) (CHR 0x22) = 2" if "k < length bs" for k
  proof -
    from list_comprehension_Inr [OF Inr] that len
    have b: "bracketed_sentence_of (words s) (entity_indexes s ! k) = Inr (bs ! k)"
      by (simp add: list_all2_conv_all_nth)
    with bracketed_sentence_of_cases [of "words s" "entity_indexes s ! k"]
    have "check_brackets (bs ! k)" by auto
    with b show ?thesis by (simp add: check_brackets_iff)
  qed
  with len Inr show ?thesis
    by (simp add: get_bracketed_sentences_def)
qed


lemma parsed_sentence_words: "words (parsed_sentence idv dmn ws) = ws"
  by (simp add: parsed_sentence_def foldl_add_word_words Sentence_init_def)

lemma parsed_sentence_indexes_in_range:
  "\<forall>i \<in> set (entity_indexes (parsed_sentence idv dmn ws)). i < length ws"
proof -
  let ?s0 = "Sentence_init\<lparr>id_value := idv, domain := dmn\<rparr>"
  have "entity_indexes ?s0 =
        filter (\<lambda>i. tag_type (tag (words ?s0 ! i)) = TagType_B) [0..<length (words ?s0)]"
    by (simp add: Sentence_init_def)
  from foldl_add_word_entity_indexes [OF this, of ws] show ?thesis
    by (simp add: parsed_sentence_def Sentence_init_def)
qed

theorem bracketed_sentences_postcondition_witness:
  "get_bracketed_sentences tongzhi_sentence =
     Inr [CHR 0x22 # ''Tongzhi'' @ CHR 0x22 # '' founded IBM'',
          ''Tongzhi founded '' @ CHR 0x22 # ''IBM'' @ [CHR 0x22]]
   \<and> count_list (CHR 0x22 # ''Tongzhi'' @ CHR 0x22 # '' founded IBM'') (CHR 0x22) = 2
   \<and> count_list (''Tongzhi founded '' @ CHR 0x22 # ''IBM'' @ [CHR 0x22]) (CHR 0x22) = 2
   \<and> get_bracketed_sentences
        (parsed_sentence None None
           [\<lparr>token = ''6'' @ [CHR 0x22], tag = \<lparr>tag_type = TagType_B, tag_category = OtherPROD\<rparr>\<rparr>])
       = Inl ValueError"
proof -
  let ?bs = "[CHR 0x22 # ''Tongzhi'' @ CHR 0x22 # '' founded IBM'',
              ''Tongzhi founded '' @ CHR 0x22 # ''IBM'' @ [CHR 0x22]]"
  have ev: "get_bracketed_sentences tongzhi_sentence = Inr ?bs"
    by code_simp
  from bracketed_sentences_postcondition [of tongzhi_sentence]
  have h: "\<forall>k < length ?bs. count_list (?bs ! k) (CHR 0x22) = 2"
    unfolding ev by simp
  have er: "get_bracketed_sentences
        (parsed_sentence None None
           [\<lparr>token = ''6'' @ [CHR 0x22], tag = \<lparr>tag_type = TagType_B, tag_category = OtherPROD\<rparr>\<rparr>])
       = Inl ValueError"
    by code_simp
  from h [rule_format, of 0] h [rule_format, of 1] ev er show ?thesis
    by simp
qed

lemma not_is_space_quote: "\<not> is_space (CHR 0x22)"
  by (simp add: is_space_def)

lemma is_space_blank: "is_space (CHR '' '')"
  by (simp add: is_space_def)

lemma strip_blank_Cons:
  assumes "xs \<noteq> []" and "\<not> is_space (hd xs)" and "\<not> is_space (last xs)"
  shows "strip (CHR '' '' # xs) = xs"
proof -
  have 1: "dropWhile is_space (CHR '' '' # xs) = xs"
    using assms(1,2) by (simp add: is_space_blank dropWhile_eq_self_iff)
  have "dropWhile is_space (rev xs) = rev xs"
    using assms(1,3) by (simp add: dropWhile_eq_self_iff hd_rev)
  with 1 show ?thesis by (simp add: strip_def)
qed

lemma spaced_tokens_hd:
  assumes "ws \<noteq> []" and "\<forall>w \<in> set ws. is_token (token w)"
  shows "\<exists>c cs. spaced_tokens ws = CHR '' '' # c # cs \<and> \<not> is_space c"
proof -
  from assms obtain w r where ws: "ws = w # r" and t: "is_token (token w)"
    by (cases ws) auto
  from t obtain c cs where "token w = c # cs" "\<not> is_space c"
    by (cases "token w") (auto simp: is_token_def)
  with ws show ?thesis by simp
qed

lemma spaced_tokens_last:
  assumes "ws \<noteq> []" and "\<forall>w \<in> set ws. is_token (token w)"
  shows "spaced_tokens ws \<noteq> [] \<and> \<not> is_space (last (spaced_tokens ws))"
proof -
  from assms(1) obtain r w where ws: "ws = r @ [w]"
    by (cases ws rule: rev_cases) auto
  with assms(2) have t: "token w \<noteq> []" "\<not> is_space (last (token w))"
    by (auto simp: is_token_def list_all_iff)
  then show ?thesis unfolding ws by simp
qed

text \<open>With well-formed tokens, strip takes just the leading blank off the string that the
  loop has built.\<close>

lemma strip_bracketed:
  assumes "\<forall>w \<in> set (pre @ we # ent @ rest). is_token (token w)"
  shows "\<exists>g. spaced_tokens pre @ CHR '' '' # CHR 0x22 # token we
              @ spaced_tokens ent @ CHR 0x22 # spaced_tokens rest = CHR '' '' # g
            \<and> strip (CHR '' '' # g) = g"
proof -
  let ?f = "spaced_tokens pre @ CHR '' '' # CHR 0x22 # token we
            @ spaced_tokens ent @ CHR 0x22 # spaced_tokens rest"
  have "\<exists>c cs. ?f = CHR '' '' # c # cs \<and> \<not> is_space c"
  proof (cases "pre = []")
    case True
    then show ?thesis by (simp add: not_is_space_quote)
  next
    case False
    with assms spaced_tokens_hd [of pre] obtain c cs
      where "spaced_tokens pre = CHR '' '' # c # cs" "\<not> is_space c"
      by auto
    then show ?thesis by simp
  qed
  then obtain c cs where f: "?f = CHR '' '' # c # cs" and c: "\<not> is_space c"
    by blast
  have "\<not> is_space (last ?f)"
  proof (cases "rest = []")
    case True
    then show ?thesis by (simp add: not_is_space_quote)
  next
    case False
    with assms spaced_tokens_last [of rest]
    have "spaced_tokens rest \<noteq> []" "\<not> is_space (last (spaced_tokens rest))"
      by auto
    then show ?thesis by simp
  qed
  with f have "\<not> is_space (last (c # cs))" by simp
  with c have "strip (CHR '' '' # c # cs) = c # cs"
    by (intro strip_blank_Cons) simp_all
  with f show ?thesis by blast
qed

lemma remove_brackets_bracketed:
  assumes ent: "\<forall>w \<in> set ent. tag_type (tag w) = TagType_I"
    and rest: "rest = [] \<or> tag_type (tag (hd rest)) \<noteq> TagType_I"
    and tok: "\<forall>w \<in> set (pre @ we # ent @ rest). is_token (token w)"
    and b: "bracketed_sentence_of (pre @ we # ent @ rest) (length pre) = Inr b"
  shows "remove_brackets b = Inr (str_join '' '' (map token (pre @ we # ent @ rest)))"
proof -
  let ?ws = "pre @ we # ent @ rest"
  let ?f = "spaced_tokens pre @ CHR '' '' # CHR 0x22 # token we
            @ spaced_tokens ent @ CHR 0x22 # spaced_tokens rest"
  from strip_bracketed [OF tok] obtain g where f: "?f = CHR '' '' # g" and g: "strip ?f = g"
    by auto
  from b have cb: "check_brackets b" and bg: "b = g"
    unfolding bracketed_sentence_of_entity [OF ent rest] g by (simp_all split: if_splits)
  have "count_list ?f (CHR 0x22) = 2 + count_list (spaced_tokens ?ws) (CHR 0x22)"
    by simp
  moreover have "count_list ?f (CHR 0x22) = 2"
    using cb unfolding bg f check_brackets_iff by simp
  ultimately have "CHR 0x22 \<notin> set (spaced_tokens ?ws)"
    by (simp add: count_list_0_iff)
  then have "filter (\<lambda>c. c \<noteq> CHR 0x22) (spaced_tokens ?ws) = spaced_tokens ?ws"
    by (rule filter_notin_id)
  moreover have "filter (\<lambda>c. c \<noteq> CHR 0x22) ?f = filter (\<lambda>c. c \<noteq> CHR 0x22) (spaced_tokens ?ws)"
    by simp
  moreover have "filter (\<lambda>c. c \<noteq> CHR 0x22) ?f = CHR '' '' # filter (\<lambda>c. c \<noteq> CHR 0x22) g"
    unfolding f by simp
  moreover have "spaced_tokens ?ws = CHR '' '' # str_join '' '' (map token ?ws)"
    by (rule spaced_tokens_join) simp
  ultimately have "filter (\<lambda>c. c \<noteq> CHR 0x22) g = str_join '' '' (map token ?ws)"
    by simp
  with remove_brackets_checked [OF cb] show ?thesis
    unfolding bg by simp
qed

text \<open>
  Claim C4. For a sentence whose tokens are tokens of the input format (non-empty, without
  whitespace) and whose entity indexes are positions of its words, as the parser builds it:
  removing the brackets from any string returned by \<open>get_bracketed_sentences\<close> gives the
  tokens of the sentence joined by single spaces.
\<close>

theorem bracket_round_trip:
  assumes "\<forall>w \<in> set (words s). is_token (token w)"
    and "\<forall>i \<in> set (entity_indexes s). i < length (words s)"
    and "get_bracketed_sentences s = Inr bs"
    and "b \<in> set bs"
  shows "remove_brackets b = Inr (spec_plain_text s)"
proof -
  from assms(3) have lc: "list_comprehension (bracketed_sentence_of (words s)) (entity_indexes s) = Inr bs"
    by (auto simp: get_bracketed_sentences_def split: sum.splits if_splits)
  from assms(4) obtain k where k: "k < length bs" "bs ! k = b"
    by (auto simp: in_set_conv_nth)
  from list_comprehension_Inr [OF lc]
  have la: "length (entity_indexes s) = length bs"
    "\<forall>i < length bs. bracketed_sentence_of (words s) (entity_indexes s ! i) = Inr (bs ! i)"
    by (simp_all add: list_all2_conv_all_nth)
  define e where "e = entity_indexes s ! k"
  from la k have e: "e \<in> set (entity_indexes s)" "bracketed_sentence_of (words s) e = Inr b"
    unfolding e_def by auto
  with assms(2) have "e < length (words s)" by simp
  from entity_decomposition [OF this] obtain pre we ent rest
    where d: "words s = pre @ we # ent @ rest" "length pre = e"
      "\<forall>w \<in> set ent. tag_type (tag w) = TagType_I"
      "rest = [] \<or> tag_type (tag (hd rest)) \<noteq> TagType_I"
    by blast
  from assms(1) have tok: "\<forall>w \<in> set (pre @ we # ent @ rest). is_token (token w)"
    unfolding d(1) .
  from e(2) have "bracketed_sentence_of (pre @ we # ent @ rest) (length pre) = Inr b"
    unfolding d(1) d(2) .
  from remove_brackets_bracketed [OF d(3,4) tok this] show ?thesis
    by (simp add: spec_plain_text_def d(1))
qed

theorem bracket_round_trip_witness:
  "get_bracketed_sentences tongzhi_sentence =
     Inr [CHR 0x22 # ''Tongzhi'' @ CHR 0x22 # '' founded IBM'',
          ''Tongzhi founded '' @ CHR 0x22 # ''IBM'' @ [CHR 0x22]]
   \<and> remove_brackets (CHR 0x22 # ''Tongzhi'' @ CHR 0x22 # '' founded IBM'') = Inr ''Tongzhi founded IBM''
   \<and> remove_brackets (''Tongzhi founded '' @ CHR 0x22 # ''IBM'' @ [CHR 0x22]) = Inr ''Tongzhi founded IBM''"
proof -
  let ?bs = "[CHR 0x22 # ''Tongzhi'' @ CHR 0x22 # '' founded IBM'',
              ''Tongzhi founded '' @ CHR 0x22 # ''IBM'' @ [CHR 0x22]]"
  have ev: "get_bracketed_sentences tongzhi_sentence = Inr ?bs"
    by code_simp
  have tok: "\<forall>w \<in> set (words tongzhi_sentence). is_token (token w)"
    by code_simp
  have rng: "\<forall>i \<in> set (entity_indexes tongzhi_sentence). i < length (words tongzhi_sentence)"
    unfolding tongzhi_sentence_def parsed_sentence_words
    by (rule parsed_sentence_indexes_in_range)
  have pt: "spec_plain_text tongzhi_sentence = ''Tongzhi founded IBM''"
    by code_simp
  from bracket_round_trip [OF tok rng ev, of "?bs ! 0"] bracket_round_trip [OF tok rng ev, of "?bs ! 1"] ev
  show ?thesis
    unfolding pt by simp
qed

section \<open>The reconstruction\<close>

lemma write_entity_tokens_inside:
  "write_entity_tokens c (Suc k) toks f =
     foldl add_conll_word f
       (map (\<lambda>t. \<lparr>token = t, tag = \<lparr>tag_type = TagType_I, tag_category = c\<rparr>\<rparr>) toks)"
  by (induction toks arbitrary: k f) simp_all

lemma write_entity_tokens_spec:
  "write_entity_tokens c 0 toks f = foldl add_conll_word f (spec_entity_words c toks)"
  by (cases toks) (simp_all add: write_entity_tokens_inside)

lemma list_index_nat: "j < length xs \<Longrightarrow> list_index xs (int j) = Inr (xs ! j)"
  by (simp add: list_index_def)

lemma walk_template_spec_from:
  assumes "length cats = n" "length origs = n" "length transs = n"
  shows "j + count_list st TEMPLATE_TOKEN \<le> n \<Longrightarrow>
         walk_template st cats origs transs (int j - 1, orig_out, trans_out) =
           Inr (int (j + count_list st TEMPLATE_TOKEN) - 1,
                foldl add_conll_word orig_out (spec_walk st (drop j (zip cats origs))),
                foldl add_conll_word trans_out (spec_walk st (drop j (zip cats transs))))"
proof (induction st arbitrary: j orig_out trans_out)
  case Nil
  then show ?case by simp
next
  case (Cons w st)
  show ?case
  proof (cases "w = TEMPLATE_TOKEN")
    case False
    with Cons show ?thesis by (simp add: Let_def)
  next
    case True
    with Cons.prems have j: "j < n" and le: "Suc j + count_list st TEMPLATE_TOKEN \<le> n"
      by simp_all
    have d1: "drop j (zip cats origs) = (cats ! j, origs ! j) # drop (Suc j) (zip cats origs)"
      using j assms by (simp add: Cons_nth_drop_Suc [symmetric])
    have d2: "drop j (zip cats transs) = (cats ! j, transs ! j) # drop (Suc j) (zip cats transs)"
      using j assms by (simp add: Cons_nth_drop_Suc [symmetric])
    have i: "int j - 1 + 1 = int j" by simp
    from Cons.IH [OF le] have ih: "walk_template st cats origs transs (int j, oo, tt) =
           Inr (int (Suc j + count_list st TEMPLATE_TOKEN) - 1,
                foldl add_conll_word oo (spec_walk st (drop (Suc j) (zip cats origs))),
                foldl add_conll_word tt (spec_walk st (drop (Suc j) (zip cats transs))))" for oo tt
      by simp
    show ?thesis
      using True j assms
      by (simp add: i Let_def list_index_nat ih d1 d2 write_entity_tokens_spec)
  qed
qed

lemma foldl_add_conll_word:
  "foldl add_conll_word f ws = f @ concat (map spec_word_line ws)"
  by (induction ws arbitrary: f) (simp_all add: add_conll_word_def spec_word_line_def)

lemma add_conll_id_line_spec:
  "add_conll_id_line f idv dmn = f @ spec_id_line idv (Domain_value dmn)"
  by (simp add: add_conll_id_line_def spec_id_line_def)

lemma Domain_of_TARGET_LANGUAGE: "Domain_of_value TARGET_LANGUAGE = Inr FR"
  by (simp add: Domain_of_value_def TARGET_LANGUAGE_def)

lemma str_int_minus_one: "str_int (- 1) = ''-1''"
  by code_simp

lemma get_entity_categories_length:
  "get_entity_categories s = Inr cats \<Longrightarrow> length cats = length (entity_indexes s)"
  by (auto simp: get_entity_categories_def dest: list_comprehension_length)

lemma get_entities_length:
  "get_entities s = Inr origs \<Longrightarrow> length origs = length (entity_indexes s)"
  by (auto simp: get_entities_def dest: list_comprehension_length)

text \<open>The body after a successful check, with the stages named.\<close>

lemma process_sentence_verified:
  assumes "verify_translations ts = Inr (m, None)"
    and "get_entity_categories s = Inr cats"
    and "get_entities s = Inr origs"
    and "list_comprehension get_bracketed_entity ts = Inr transs"
    and "length transs = length (entity_indexes s)"
    and "make_template m transs = Inr template"
  shows "process_sentence s ts st =
    (if count_list (split template) TEMPLATE_TOKEN \<noteq> length (entity_indexes s)
     then Inr (Continue, st\<lparr>warnings := warnings st @ [TemplateTokenMismatchWarning]\<rparr>)
     else if db_amt st + 1 \<ge> max_amt
     then Inr (Break,
       st\<lparr>trans_file := trans_file st
              @ spec_sentence_text (str_optional (id_value s) @ ''--1'') ''fr''
                  (spec_walk (split template) (zip cats transs)),
           orig_file := orig_file st
              @ spec_sentence_text (str_optional (id_value s) @ ''--1'') ''fr''
                  (spec_walk (split template) (zip cats origs)),
           db_amt := db_amt st + 1\<rparr>)
     else Inr (Continue,
       st\<lparr>trans_file := trans_file st
              @ spec_sentence_text (str_optional (id_value s) @ ''--1'') ''fr''
                  (spec_walk (split template) (zip cats transs)) @ ''\<newline>\<newline>'',
           orig_file := orig_file st
              @ spec_sentence_text (str_optional (id_value s) @ ''--1'') ''fr''
                  (spec_walk (split template) (zip cats origs)) @ ''\<newline>\<newline>'',
           db_amt := db_amt st + 1\<rparr>))"
proof (cases "count_list (split template) TEMPLATE_TOKEN = length (entity_indexes s)")
  case False
  with assms get_entity_categories_length [OF assms(2)] get_entities_length [OF assms(3)]
  show ?thesis
    by (simp add: process_sentence_def)
next
  case True
  note n = get_entity_categories_length [OF assms(2)] get_entities_length [OF assms(3)] assms(5)
  have w: "walk_template (split template) cats origs transs (- 1, oo, tt) =
           Inr (int (length (entity_indexes s)) - 1,
                foldl add_conll_word oo (spec_walk (split template) (zip cats origs)),
                foldl add_conll_word tt (spec_walk (split template) (zip cats transs)))" for oo tt
    using walk_template_spec_from [OF n, of 0 "split template" oo tt] True by simp
  show ?thesis
    using assms True n
    by (simp add: process_sentence_def Let_def w Domain_of_TARGET_LANGUAGE str_int_minus_one
        foldl_add_conll_word add_conll_id_line_spec spec_sentence_text_def)
qed

lemma check_translations_accepts:
  "check_translations m ts = Inr None \<Longrightarrow>
   \<forall>t \<in> set ts. check_brackets t \<and> remove_brackets t = Inr m"
  by (induction ts) (auto split: if_splits sum.splits)

lemma verify_translations_accepts:
  assumes "verify_translations ts = Inr (m, None)"
  shows "ts \<noteq> [] \<and> (\<forall>t \<in> set ts. check_brackets t \<and> remove_brackets t = Inr m)"
proof -
  from assms have "ts \<noteq> []"
    by (auto simp: verify_translations_def list_index_Nil)
  moreover from assms have "check_translations m ts = Inr None"
    by (auto simp: verify_translations_def split: sum.splits)
  ultimately show ?thesis
    using check_translations_accepts by blast
qed

lemma get_bracketed_entities_checked:
  "\<forall>t \<in> set ts. check_brackets t \<Longrightarrow>
   \<exists>transs. list_comprehension get_bracketed_entity ts = Inr transs \<and> length transs = length ts"
proof (induction ts)
  case Nil
  then show ?case by simp
next
  case (Cons t ts)
  then obtain transs where "list_comprehension get_bracketed_entity ts = Inr transs"
    "length transs = length ts" by auto
  moreover from Cons.prems get_bracketed_entity_checked [of t]
  obtain b where "get_bracketed_entity t = Inr b" by auto
  ultimately show ?case by simp
qed

lemma get_entity_categories_in_range:
  assumes "\<forall>i \<in> set (entity_indexes s). i < length (words s)"
  shows "get_entity_categories s =
           Inr (map (\<lambda>e. tag_category (tag (words s ! e))) (entity_indexes s))"
proof -
  have "\<forall>i \<in> set [0..<length (entity_indexes s)].
          get_entity_category s (int i) =
            Inr (tag_category (tag (words s ! (entity_indexes s ! i))))"
    using assms by (simp add: get_entity_category_def list_index_nat)
  from list_comprehension_total [OF this]
  have "get_entity_categories s =
          Inr (map (\<lambda>i. tag_category (tag (words s ! (entity_indexes s ! i))))
                 [0..<length (entity_indexes s)])"
    by (simp add: get_entity_categories_def)
  also have "map (\<lambda>i. tag_category (tag (words s ! (entity_indexes s ! i))))
                 [0..<length (entity_indexes s)]
             = map (\<lambda>e. tag_category (tag (words s ! e))) (entity_indexes s)"
    by (rule nth_equalityI) simp_all
  finally show ?thesis .
qed

lemma get_entities_total:
  "get_entities s = Inr (map (\<lambda>e. get_entity_loop e 0 (words s) []) (entity_indexes s))"
proof -
  have "\<forall>i \<in> set [0..<length (entity_indexes s)].
          get_entity s (int i) = Inr (get_entity_loop (entity_indexes s ! i) 0 (words s) [])"
    by (simp add: get_entity_def list_index_nat)
  from list_comprehension_total [OF this]
  have "get_entities s =
          Inr (map (\<lambda>i. get_entity_loop (entity_indexes s ! i) 0 (words s) [])
                 [0..<length (entity_indexes s)])"
    by (simp add: get_entities_def)
  also have "map (\<lambda>i. get_entity_loop (entity_indexes s ! i) 0 (words s) [])
                 [0..<length (entity_indexes s)]
             = map (\<lambda>e. get_entity_loop e 0 (words s) []) (entity_indexes s)"
    by (rule nth_equalityI) simp_all
  finally show ?thesis .
qed

text \<open>
  Claim C6. Take a sentence whose entity indexes are positions of its words, with one
  translation per entity, that has passed the consistency check, and whose template has been
  built (the assertion that the main translation holds no placeholder has passed). When the
  number of placeholders among the whitespace-separated tokens of the template differs from
  the number of entities, the loop body issues the template token mismatch warning and
  continues with the next sentence: nothing has been written, both files are as before.
\<close>

theorem template_token_mismatch_atomic:
  assumes "\<forall>i \<in> set (entity_indexes sentence). i < length (words sentence)"
    and "length translations = length (entity_indexes sentence)"
    and "verify_translations translations = Inr (m, None)"
    and "list_comprehension get_bracketed_entity translations = Inr translated_entity_tokens"
    and "make_template m translated_entity_tokens = Inr template"
    and "count_list (split template) TEMPLATE_TOKEN \<noteq> length (entity_indexes sentence)"
  shows "process_sentence sentence translations st =
           Inr (Continue, st\<lparr>warnings := warnings st @ [TemplateTokenMismatchWarning]\<rparr>)
         \<and> (\<forall>flow st'. process_sentence sentence translations st = Inr (flow, st') \<longrightarrow>
               trans_file st' = trans_file st \<and> orig_file st' = orig_file st)"
proof -
  from list_comprehension_length [OF assms(4)] assms(2)
  have len: "length translated_entity_tokens = length (entity_indexes sentence)" by simp
  from process_sentence_verified
    [OF assms(3) get_entity_categories_in_range [OF assms(1)] get_entities_total assms(4) len assms(5), of st]
    assms(6)
  have "process_sentence sentence translations st =
           Inr (Continue, st\<lparr>warnings := warnings st @ [TemplateTokenMismatchWarning]\<rparr>)"
    by simp
  then show ?thesis by simp
qed

theorem template_token_mismatch_atomic_witness:
  "process_sentence tongzhi_sentence
     [CHR 0x22 # ''Tongzhi'' @ CHR 0x22 # '', a fonde IBM'',
      ''Tongzhi, a fonde '' @ CHR 0x22 # ''IBM'' @ [CHR 0x22]] initial_state =
   Inr (Continue, initial_state\<lparr>warnings := [TemplateTokenMismatchWarning]\<rparr>)
   \<and> make_template ''Tongzhi, a fonde IBM'' [''Tongzhi'', ''IBM''] = Inr ''<#TEMPLATE#>, a fonde <#TEMPLATE#>''
   \<and> split ''<#TEMPLATE#>, a fonde <#TEMPLATE#>'' = [''<#TEMPLATE#>,'', ''a'', ''fonde'', ''<#TEMPLATE#>'']"
proof -
  let ?ts = "[CHR 0x22 # ''Tongzhi'' @ CHR 0x22 # '', a fonde IBM'',
              ''Tongzhi, a fonde '' @ CHR 0x22 # ''IBM'' @ [CHR 0x22]]"
  have rng: "\<forall>i \<in> set (entity_indexes tongzhi_sentence). i < length (words tongzhi_sentence)"
    unfolding tongzhi_sentence_def parsed_sentence_words
    by (rule parsed_sentence_indexes_in_range)
  have len: "length ?ts = length (entity_indexes tongzhi_sentence)"
    by code_simp
  have v: "verify_translations ?ts = Inr (''Tongzhi, a fonde IBM'', None)"
    by code_simp
  have e: "list_comprehension get_bracketed_entity ?ts = Inr [''Tongzhi'', ''IBM'']"
    by code_simp
  have m: "make_template ''Tongzhi, a fonde IBM'' [''Tongzhi'', ''IBM''] = Inr ''<#TEMPLATE#>, a fonde <#TEMPLATE#>''"
    by code_simp
  have sp: "split ''<#TEMPLATE#>, a fonde <#TEMPLATE#>'' = [''<#TEMPLATE#>,'', ''a'', ''fonde'', ''<#TEMPLATE#>'']"
    by code_simp
  have c: "count_list (split ''<#TEMPLATE#>, a fonde <#TEMPLATE#>'') TEMPLATE_TOKEN
           \<noteq> length (entity_indexes tongzhi_sentence)"
    by code_simp
  from template_token_mismatch_atomic [OF rng len v e m c, of initial_state]
  have "process_sentence tongzhi_sentence ?ts initial_state =
          Inr (Continue, initial_state\<lparr>warnings := warnings initial_state @ [TemplateTokenMismatchWarning]\<rparr>)"
    by (rule conjunct1)
  then have "process_sentence tongzhi_sentence ?ts initial_state =
          Inr (Continue, initial_state\<lparr>warnings := [TemplateTokenMismatchWarning]\<rparr>)"
    by (simp add: initial_state_def)
  with m sp show ?thesis by simp
qed



section \<open>The template\<close>

lemma str_find_Some:
  "str_find sub s = Some i \<Longrightarrow>
   prefix sub (drop i s) \<and> i \<le> length s \<and> (\<forall>j < i. \<not> prefix sub (drop j s))"
proof (induction s arbitrary: i)
  case Nil
  then show ?case by (simp split: if_splits)
next
  case (Cons c cs)
  show ?case
  proof (cases "prefix sub (c # cs)")
    case True
    with Cons.prems show ?thesis by simp
  next
    case False
    with Cons.prems obtain k where k: "str_find sub cs = Some k" "i = Suc k"
      by auto
    from Cons.IH [OF k(1)] False k(2) show ?thesis
      by (auto simp: less_Suc_eq_0_disj)
  qed
qed

lemma str_find_None:
  "str_find sub s = None \<Longrightarrow> \<forall>j \<le> length s. \<not> prefix sub (drop j s)"
proof (induction s)
  case Nil
  then show ?case by (simp split: if_splits)
next
  case (Cons c cs)
  then have n: "\<not> prefix sub (c # cs)" "str_find sub cs = None"
    by (auto split: if_splits)
  from Cons.IH [OF n(2)] n(1) show ?case
    by (auto simp: le_Suc_eq all_conj_distrib drop_Cons split: nat.splits)
qed

lemma str_find_first_occurrence:
  assumes "\<forall>j < length a. \<not> prefix old (drop j (a @ old @ b))"
  shows "str_find old (a @ old @ b) = Some (length a)"
  using assms
proof (induction a)
  case Nil
  have "prefix old (old @ b)" by simp
  then show ?case by (cases "old @ b") simp_all
next
  case (Cons c a)
  from Cons.prems have 0: "\<not> prefix old (c # a @ old @ b)"
    by (auto dest: spec [of _ 0])
  from Cons.prems have "\<forall>j < length a. \<not> prefix old (drop j (a @ old @ b))"
    by (auto dest: spec [of _ "Suc j" for j])
  from Cons.IH [OF this] 0 show ?case by simp
qed

text \<open>\<open>s.replace(old, new, 1)\<close> replaces the leftmost occurrence of \<open>old\<close>, and nothing when
  there is none.\<close>

lemma str_replace1_first_occurrence:
  assumes "\<forall>j < length a. \<not> prefix old (drop j (a @ old @ b))"
  shows "str_replace1 (a @ old @ b) old new = a @ new @ b"
  by (simp add: str_replace1_def str_find_first_occurrence [OF assms])

lemma str_replace1_absent:
  "\<forall>j \<le> length s. \<not> prefix old (drop j s) \<Longrightarrow> str_replace1 s old new = s"
proof -
  assume a: "\<forall>j \<le> length s. \<not> prefix old (drop j s)"
  have "str_find old s = None"
  proof (cases "str_find old s")
    case None
    then show ?thesis .
  next
    case (Some i)
    from str_find_Some [OF this] a show ?thesis by auto
  qed
  then show ?thesis by (simp add: str_replace1_def)
qed

text \<open>Two entities with the same translated text \<open>t\<close>: when \<open>t\<close> first occurs at the end of
  \<open>a\<close>, and after the first replacement no occurrence of \<open>t\<close> starts before the second one
  (none inside or across the placeholder, none in \<open>b\<close>), the two occurrences are replaced.\<close>

lemma make_template_equal_entities:
  assumes "\<not> str_contains (a @ t @ b @ t @ c) TEMPLATE_TOKEN"
    and "\<forall>j < length a. \<not> prefix t (drop j (a @ t @ b @ t @ c))"
    and "\<forall>j < length (a @ TEMPLATE_TOKEN @ b). \<not> prefix t (drop j (a @ TEMPLATE_TOKEN @ b @ t @ c))"
  shows "make_template (a @ t @ b @ t @ c) [t, t] =
           Inr (a @ TEMPLATE_TOKEN @ b @ TEMPLATE_TOKEN @ c)"
proof -
  have 1: "str_replace1 (a @ t @ b @ t @ c) t TEMPLATE_TOKEN = a @ TEMPLATE_TOKEN @ b @ t @ c"
    using str_replace1_first_occurrence [OF assms(2)] by simp
  have 2: "str_replace1 ((a @ TEMPLATE_TOKEN @ b) @ t @ c) t TEMPLATE_TOKEN =
             (a @ TEMPLATE_TOKEN @ b) @ TEMPLATE_TOKEN @ c"
    by (rule str_replace1_first_occurrence) (use assms(3) in simp)
  from assms(1) 1 2 show ?thesis
    by (simp add: make_template_def)
qed

text \<open>
  Claim C5. With two entities both translated as Paris, the two replacements take the two
  occurrences of Paris. With two entities both translated as M, the first replacement puts
  the placeholder \<open><#TEMPLATE#>\<close> at the first M, and the second replacement then
  takes the M inside that placeholder: the first position is consumed again, the second M of
  the translation stays, and the sentence is dropped for a placeholder count of 0.
\<close>

theorem placeholder_collides_with_entity_text:
  "make_template ''Paris loves Paris'' [''Paris'', ''Paris''] = Inr ''<#TEMPLATE#> loves <#TEMPLATE#>''
   \<and> make_template ''M meets M'' [''M'', ''M''] = Inr ''<#TE<#TEMPLATE#>PLATE#> meets M''
   \<and> process_sentence
        (parsed_sentence (Some ''m'') (Some EN)
           [\<lparr>token = ''M'', tag = \<lparr>tag_type = TagType_B, tag_category = OtherPER\<rparr>\<rparr>,
            \<lparr>token = ''meets'', tag = \<lparr>tag_type = TagType_O, tag_category = Empty\<rparr>\<rparr>,
            \<lparr>token = ''M'', tag = \<lparr>tag_type = TagType_B, tag_category = OtherPER\<rparr>\<rparr>])
        [CHR 0x22 # ''M'' @ CHR 0x22 # '' meets M'', ''M meets '' @ CHR 0x22 # ''M'' @ [CHR 0x22]]
        initial_state =
       Inr (Continue, initial_state\<lparr>warnings := [TemplateTokenMismatchWarning]\<rparr>)"
proof -
  have a: "make_template ''Paris loves Paris'' [''Paris'', ''Paris''] = Inr ''<#TEMPLATE#> loves <#TEMPLATE#>''"
    by code_simp
  have b: "make_template ''M meets M'' [''M'', ''M''] = Inr ''<#TE<#TEMPLATE#>PLATE#> meets M''"
    by code_simp
  have c: "process_sentence
        (parsed_sentence (Some ''m'') (Some EN)
           [\<lparr>token = ''M'', tag = \<lparr>tag_type = TagType_B, tag_category = OtherPER\<rparr>\<rparr>,
            \<lparr>token = ''meets'', tag = \<lparr>tag_type = TagType_O, tag_category = Empty\<rparr>\<rparr>,
            \<lparr>token = ''M'', tag = \<lparr>tag_type = TagType_B, tag_category = OtherPER\<rparr>\<rparr>])
        [CHR 0x22 # ''M'' @ CHR 0x22 # '' meets M'', ''M meets '' @ CHR 0x22 # ''M'' @ [CHR 0x22]]
        initial_state =
       Inr (Continue, initial_state\<lparr>warnings := [TemplateTokenMismatchWarning]\<rparr>)"
    by code_simp
  show ?thesis by (intro conjI) (rule a, rule b, rule c)
qed

section \<open>The output files\<close>

lemma split_from_tokens:
  "list_all (\<lambda>c. \<not> is_space c) cur \<Longrightarrow> \<forall>w \<in> set (split_from cur s). is_token w"
proof (induction s arbitrary: cur)
  case Nil
  then show ?case by (simp add: is_token_def)
next
  case (Cons c cs)
  show ?case
  proof (cases "is_space c")
    case True
    have "\<forall>w \<in> set (split_from [] cs). is_token w"
      by (rule Cons.IH) simp
    with True Cons.prems show ?thesis by (simp add: is_token_def)
  next
    case False
    with Cons.prems have "list_all (\<lambda>c. \<not> is_space c) (cur @ [c])" by simp
    from Cons.IH [OF this] False show ?thesis by simp
  qed
qed

lemma split_tokens: "\<forall>w \<in> set (split s). is_token w"
  unfolding split_def by (rule split_from_tokens) simp

lemma spec_entity_words_tokens:
  "\<forall>t \<in> set toks. is_token t \<Longrightarrow> \<forall>w \<in> set (spec_entity_words c toks). is_token (token w)"
  by (cases toks) auto

lemma spec_walk_tokens:
  "\<forall>t \<in> set st. is_token t \<Longrightarrow> \<forall>w \<in> set (spec_walk st ents). is_token (token w)"
proof (induction st ents rule: spec_walk.induct)
  case (1 entities)
  then show ?case by simp
next
  case (2 w rest entities)
  show ?case
  proof (cases "w = TEMPLATE_TOKEN")
    case False
    with 2 show ?thesis by simp
  next
    case True
    show ?thesis
    proof (cases entities)
      case Nil
      with True show ?thesis by simp
    next
      case (Cons p later)
      obtain category entity_text where p: "p = (category, entity_text)" by (cases p)
      from 2(1) [OF True Cons [unfolded p]] 2(3)
      have "\<forall>w \<in> set (spec_walk rest later). is_token (token w)" by simp
      moreover have "\<forall>w \<in> set (spec_entity_words category (split entity_text)). is_token (token w)"
        by (rule spec_entity_words_tokens) (rule split_tokens)
      ultimately show ?thesis using True Cons p by auto
    qed
  qed
qed

lemma spec_output_pair_Some:
  assumes "spec_output_pair s ts = Some (idv, ow, tw)"
  shows "idv = str_optional (id_value s) @ ''--1''
       \<and> (\<forall>w \<in> set ow. is_token (token w)) \<and> (\<forall>w \<in> set tw. is_token (token w))"
  using assms spec_walk_tokens [OF split_tokens]
  by (auto simp: spec_output_pair_def split: sum.splits option.splits if_splits prod.splits)

lemma spec_output_pairs_from:
  "(idv, ow, tw) \<in> set (spec_output_pairs sentences results k) \<Longrightarrow>
   (\<exists>s \<in> set sentences. idv = str_optional (id_value s) @ ''--1'')
   \<and> (\<forall>w \<in> set ow. is_token (token w)) \<and> (\<forall>w \<in> set tw. is_token (token w))"
proof (induction sentences arbitrary: k)
  case Nil
  then show ?case by simp
next
  case (Cons s rest)
  from Cons.prems consider
    (here) ts where "spec_output_pair s ts = Some (idv, ow, tw)"
  | (later) "(idv, ow, tw) \<in> set (spec_output_pairs rest results (k + length (entity_indexes s)))"
    by (auto simp: Let_def split: sum.splits option.splits)
  then show ?case
  proof cases
    case here
    from spec_output_pair_Some [OF this] show ?thesis by simp
  next
    case later
    from Cons.IH [OF this] show ?thesis by auto
  qed
qed

lemma process_sentence_pair:
  assumes "process_sentence s ts st = Inr (fl, st')"
  shows "translations_index st' = translations_index st
       \<and> (case spec_output_pair s ts of
            None \<Rightarrow> fl = Continue \<and> trans_file st' = trans_file st \<and> orig_file st' = orig_file st
                     \<and> db_amt st' = db_amt st
          | Some (idv, ow, tw) \<Rightarrow>
               trans_file st' = trans_file st @ spec_sentence_text idv ''fr'' tw
                  @ (if max_amt \<le> Suc (db_amt st) then [] else ''\<newline>\<newline>'')
             \<and> orig_file st' = orig_file st @ spec_sentence_text idv ''fr'' ow
                  @ (if max_amt \<le> Suc (db_amt st) then [] else ''\<newline>\<newline>'')
             \<and> db_amt st' = Suc (db_amt st)
             \<and> fl = (if max_amt \<le> Suc (db_amt st) then Break else Continue))"
proof -
  from assms obtain m w where v: "verify_translations ts = Inr (m, w)"
    by (cases "verify_translations ts") (auto simp: process_sentence_def)
  show ?thesis
  proof (cases w)
    case (Some x)
    with v have "spec_output_pair s ts = None" by (simp add: spec_output_pair_def)
    with Some v process_sentence_skip [of ts m x s st] assms show ?thesis by auto
  next
    case None
    note v = v [unfolded None]
    from assms v obtain cats where c: "get_entity_categories s = Inr cats"
      by (cases "get_entity_categories s") (auto simp: process_sentence_def)
    from assms v c obtain origs where o: "get_entities s = Inr origs"
      by (cases "get_entities s") (auto simp: process_sentence_def)
    from assms v c o obtain transs where t: "list_comprehension get_bracketed_entity ts = Inr transs"
      by (cases "list_comprehension get_bracketed_entity ts") (auto simp: process_sentence_def)
    from assms v c o t have len: "length cats = length origs" "length origs = length transs"
      by (auto simp: process_sentence_def split: if_splits)
    with get_entity_categories_length [OF c]
    have n: "length transs = length (entity_indexes s)" by simp
    from assms v c o t len obtain template where tp: "make_template m transs = Inr template"
      by (cases "make_template m transs") (auto simp: process_sentence_def)
    have sp: "spec_output_pair s ts =
                (if count_list (split template) TEMPLATE_TOKEN \<noteq> length (entity_indexes s) then None
                 else Some (str_optional (id_value s) @ ''--1'',
                            spec_walk (split template) (zip cats origs),
                            spec_walk (split template) (zip cats transs)))"
      using v c o t tp by (simp add: spec_output_pair_def)
    from process_sentence_verified [OF v c o t n tp, of st] assms
    show ?thesis unfolding sp
      by (auto split: if_splits)
  qed
qed

lemma loop_body_pair:
  assumes "loop_body s results st = Inr (fl, st')"
  shows "\<exists>ts. list_comprehension (\<lambda>result. dict_get result TRANSLATED_TEXT_KEY)
               (take (length (entity_indexes s)) (drop (translations_index st) results)) = Inr ts
       \<and> translations_index st' = translations_index st + length (entity_indexes s)
       \<and> (case spec_output_pair s ts of
            None \<Rightarrow> fl = Continue \<and> trans_file st' = trans_file st \<and> orig_file st' = orig_file st
                     \<and> db_amt st' = db_amt st
          | Some (idv, ow, tw) \<Rightarrow>
               trans_file st' = trans_file st @ spec_sentence_text idv ''fr'' tw
                  @ (if max_amt \<le> Suc (db_amt st) then [] else ''\<newline>\<newline>'')
             \<and> orig_file st' = orig_file st @ spec_sentence_text idv ''fr'' ow
                  @ (if max_amt \<le> Suc (db_amt st) then [] else ''\<newline>\<newline>'')
             \<and> db_amt st' = Suc (db_amt st)
             \<and> fl = (if max_amt \<le> Suc (db_amt st) then Break else Continue))"
proof -
  from assms obtain ts where
    lc: "list_comprehension (\<lambda>result. dict_get result TRANSLATED_TEXT_KEY)
               (take (length (entity_indexes s)) (drop (translations_index st) results)) = Inr ts"
    and ps: "process_sentence s ts (st\<lparr>translations_index := translations_index st + length (entity_indexes s)\<rparr>)
       = Inr (fl, st')"
    by (auto simp: loop_body_def Let_def split: sum.splits if_splits)
  from process_sentence_pair [OF ps] lc show ?thesis
    by (cases "spec_output_pair s ts") auto
qed


text \<open>
  Claim C9, as the code has it. When the loop over the sentences ends without an exception,
  each output file is its former content followed by the texts of the accepted sentence
  pairs, in input order: the translated-language file has the translated sentence of each
  pair, the original-language file the original one. A sentence text is the id line
  \<open># id <id>\<close>, a tab, \<open>domain=fr\<close> and a newline, then one line
  \<open><token> _ _ <tag_format>\<close> per word; and each sentence text is followed by two
  newline characters (so that two blank lines, not one, separate it from the next id line),
  except the one with which the count of emitted sentences reaches \<open>max_amt\<close>, which ends
  the file. The id of a pair is that of one of the sentences followed by \<open>--1\<close>, and no
  word of a pair has an empty token or whitespace in its token, so that a word line is one
  line.
\<close>

theorem serialized_output_format:
  assumes "main_loop sentences results st = Inr st'"
  shows "trans_file st' = trans_file st
           @ spec_corpus_text (db_amt st)
               (map (\<lambda>(idv, ow, tw). spec_sentence_text idv ''fr'' tw)
                  (spec_output_pairs sentences results (translations_index st)))
       \<and> orig_file st' = orig_file st
           @ spec_corpus_text (db_amt st)
               (map (\<lambda>(idv, ow, tw). spec_sentence_text idv ''fr'' ow)
                  (spec_output_pairs sentences results (translations_index st)))
       \<and> (\<forall>(idv, ow, tw) \<in> set (spec_output_pairs sentences results (translations_index st)).
            (\<exists>s \<in> set sentences. idv = str_optional (id_value s) @ ''--1'')
            \<and> (\<forall>w \<in> set ow. is_token (token w)) \<and> (\<forall>w \<in> set tw. is_token (token w)))"
proof -
  have files: "trans_file st' = trans_file st
           @ spec_corpus_text (db_amt st)
               (map (\<lambda>(idv, ow, tw). spec_sentence_text idv ''fr'' tw)
                  (spec_output_pairs sentences results (translations_index st)))
       \<and> orig_file st' = orig_file st
           @ spec_corpus_text (db_amt st)
               (map (\<lambda>(idv, ow, tw). spec_sentence_text idv ''fr'' ow)
                  (spec_output_pairs sentences results (translations_index st)))"
    using assms
  proof (induction sentences arbitrary: st)
    case Nil
    then have "st' = st" by simp
    then show ?case by simp
  next
    case (Cons s rest)
    from Cons.prems obtain fl st1 where lb: "loop_body s results st = Inr (fl, st1)"
      by (cases "loop_body s results st") auto
    from loop_body_pair [OF lb] obtain ts where
      lc: "list_comprehension (\<lambda>result. dict_get result TRANSLATED_TEXT_KEY)
               (take (length (entity_indexes s)) (drop (translations_index st) results)) = Inr ts"
      and ti: "translations_index st1 = translations_index st + length (entity_indexes s)"
      and out: "case spec_output_pair s ts of
            None \<Rightarrow> fl = Continue \<and> trans_file st1 = trans_file st \<and> orig_file st1 = orig_file st
                     \<and> db_amt st1 = db_amt st
          | Some (idv, ow, tw) \<Rightarrow>
               trans_file st1 = trans_file st @ spec_sentence_text idv ''fr'' tw
                  @ (if max_amt \<le> Suc (db_amt st) then [] else ''\<newline>\<newline>'')
             \<and> orig_file st1 = orig_file st @ spec_sentence_text idv ''fr'' ow
                  @ (if max_amt \<le> Suc (db_amt st) then [] else ''\<newline>\<newline>'')
             \<and> db_amt st1 = Suc (db_amt st)
             \<and> fl = (if max_amt \<le> Suc (db_amt st) then Break else Continue)"
      by blast
    show ?case
    proof (cases "spec_output_pair s ts")
      case None
      with out have sk: "fl = Continue" "trans_file st1 = trans_file st"
        "orig_file st1 = orig_file st" "db_amt st1 = db_amt st" by simp_all
      with Cons.prems lb have "main_loop rest results st1 = Inr st'" by simp
      from Cons.IH [OF this] sk ti lc None show ?thesis by (simp add: Let_def)
    next
      case (Some p)
      obtain idv ow tw where p: "p = (idv, ow, tw)" by (cases p)
      from out Some p have em:
        "trans_file st1 = trans_file st @ spec_sentence_text idv ''fr'' tw
            @ (if max_amt \<le> Suc (db_amt st) then [] else ''\<newline>\<newline>'')"
        "orig_file st1 = orig_file st @ spec_sentence_text idv ''fr'' ow
            @ (if max_amt \<le> Suc (db_amt st) then [] else ''\<newline>\<newline>'')"
        "db_amt st1 = Suc (db_amt st)"
        "fl = (if max_amt \<le> Suc (db_amt st) then Break else Continue)"
        by simp_all
      show ?thesis
      proof (cases "max_amt \<le> Suc (db_amt st)")
        case True
        with em Cons.prems lb have "st' = st1" by simp
        with em True lc Some p show ?thesis by (simp add: Let_def)
      next
        case False
        with em Cons.prems lb have "main_loop rest results st1 = Inr st'" by simp
        from Cons.IH [OF this] em False ti lc Some p show ?thesis by (simp add: Let_def)
      qed
    qed
  qed
  have pairs: "\<forall>(idv, ow, tw) \<in> set (spec_output_pairs sentences results (translations_index st)).
            (\<exists>s \<in> set sentences. idv = str_optional (id_value s) @ ''--1'')
            \<and> (\<forall>w \<in> set ow. is_token (token w)) \<and> (\<forall>w \<in> set tw. is_token (token w))"
    using spec_output_pairs_from by blast
  from files pairs show ?thesis by (intro conjI) (erule conjunct1, erule conjunct2, assumption)
qed

lemma two_sentence_step1: "loop_body (one_entity_sentence ''a'' ''IBM'' TechCorp)
     [translated (CHR 0x22 # ''IBM'' @ [CHR 0x22]), translated (CHR 0x22 # ''Paris'' @ [CHR 0x22])]
     initial_state
  = Inr (Continue, \<lparr>trans_file = ''# id a--1'' @ CHR 0x09 # ''domain=fr\<newline>IBM _ _ B-TechCorp\<newline>\<newline>\<newline>'',
      orig_file = ''# id a--1'' @ CHR 0x09 # ''domain=fr\<newline>IBM _ _ B-TechCorp\<newline>\<newline>\<newline>'',
      translations_index = 1, db_amt = 1, warnings = []\<rparr>)"
  by code_simp

lemma two_sentence_step2: "loop_body (one_entity_sentence ''b'' ''Paris'' HumanSettlement)
     [translated (CHR 0x22 # ''IBM'' @ [CHR 0x22]), translated (CHR 0x22 # ''Paris'' @ [CHR 0x22])]
     \<lparr>trans_file = ''# id a--1'' @ CHR 0x09 # ''domain=fr\<newline>IBM _ _ B-TechCorp\<newline>\<newline>\<newline>'',
      orig_file = ''# id a--1'' @ CHR 0x09 # ''domain=fr\<newline>IBM _ _ B-TechCorp\<newline>\<newline>\<newline>'',
      translations_index = 1, db_amt = 1, warnings = []\<rparr>
  = Inr (Continue, \<lparr>trans_file =
          ''# id a--1'' @ CHR 0x09 # ''domain=fr\<newline>IBM _ _ B-TechCorp\<newline>\<newline>\<newline>''
          @ ''# id b--1'' @ CHR 0x09 # ''domain=fr\<newline>Paris _ _ B-HumanSettlement\<newline>\<newline>\<newline>'',
        orig_file =
          ''# id a--1'' @ CHR 0x09 # ''domain=fr\<newline>IBM _ _ B-TechCorp\<newline>\<newline>\<newline>''
          @ ''# id b--1'' @ CHR 0x09 # ''domain=fr\<newline>Paris _ _ B-HumanSettlement\<newline>\<newline>\<newline>'',
        translations_index = 2, db_amt = 2, warnings = []\<rparr>)"
  by code_simp

lemma two_sentence_run: "main_loop
     [one_entity_sentence ''a'' ''IBM'' TechCorp, one_entity_sentence ''b'' ''Paris'' HumanSettlement]
     [translated (CHR 0x22 # ''IBM'' @ [CHR 0x22]), translated (CHR 0x22 # ''Paris'' @ [CHR 0x22])]
     initial_state =
   Inr \<lparr>trans_file =
          ''# id a--1'' @ CHR 0x09 # ''domain=fr\<newline>IBM _ _ B-TechCorp\<newline>\<newline>\<newline>''
          @ ''# id b--1'' @ CHR 0x09 # ''domain=fr\<newline>Paris _ _ B-HumanSettlement\<newline>\<newline>\<newline>'',
        orig_file =
          ''# id a--1'' @ CHR 0x09 # ''domain=fr\<newline>IBM _ _ B-TechCorp\<newline>\<newline>\<newline>''
          @ ''# id b--1'' @ CHR 0x09 # ''domain=fr\<newline>Paris _ _ B-HumanSettlement\<newline>\<newline>\<newline>'',
        translations_index = 2, db_amt = 2, warnings = []\<rparr>"
  by (simp only: main_loop.simps two_sentence_step1 two_sentence_step2 sum.case prod.case flow.case)


lemma two_sentence_pairs:
  "spec_output_pairs
     [one_entity_sentence ''a'' ''IBM'' TechCorp, one_entity_sentence ''b'' ''Paris'' HumanSettlement]
     [translated (CHR 0x22 # ''IBM'' @ [CHR 0x22]), translated (CHR 0x22 # ''Paris'' @ [CHR 0x22])]
     0 =
   [(''a--1'',
     [\<lparr>token = ''IBM'', tag = \<lparr>tag_type = TagType_B, tag_category = TechCorp\<rparr>\<rparr>],
     [\<lparr>token = ''IBM'', tag = \<lparr>tag_type = TagType_B, tag_category = TechCorp\<rparr>\<rparr>]),
    (''b--1'',
     [\<lparr>token = ''Paris'', tag = \<lparr>tag_type = TagType_B, tag_category = HumanSettlement\<rparr>\<rparr>],
     [\<lparr>token = ''Paris'', tag = \<lparr>tag_type = TagType_B, tag_category = HumanSettlement\<rparr>\<rparr>])]"
  by code_simp

theorem serialized_output_format_witness:
  "main_loop
     [one_entity_sentence ''a'' ''IBM'' TechCorp, one_entity_sentence ''b'' ''Paris'' HumanSettlement]
     [translated (CHR 0x22 # ''IBM'' @ [CHR 0x22]), translated (CHR 0x22 # ''Paris'' @ [CHR 0x22])]
     initial_state =
   Inr \<lparr>trans_file =
          ''# id a--1'' @ CHR 0x09 # ''domain=fr\<newline>IBM _ _ B-TechCorp\<newline>\<newline>\<newline>''
          @ ''# id b--1'' @ CHR 0x09 # ''domain=fr\<newline>Paris _ _ B-HumanSettlement\<newline>\<newline>\<newline>'',
        orig_file =
          ''# id a--1'' @ CHR 0x09 # ''domain=fr\<newline>IBM _ _ B-TechCorp\<newline>\<newline>\<newline>''
          @ ''# id b--1'' @ CHR 0x09 # ''domain=fr\<newline>Paris _ _ B-HumanSettlement\<newline>\<newline>\<newline>'',
        translations_index = 2, db_amt = 2, warnings = []\<rparr>
   \<and> ''# id a--1'' @ CHR 0x09 # ''domain=fr\<newline>IBM _ _ B-TechCorp\<newline>\<newline>\<newline>''
        @ ''# id b--1'' @ CHR 0x09 # ''domain=fr\<newline>Paris _ _ B-HumanSettlement\<newline>\<newline>\<newline>''
      = spec_corpus_text 0
          [spec_sentence_text ''a--1'' ''fr''
             [\<lparr>token = ''IBM'', tag = \<lparr>tag_type = TagType_B, tag_category = TechCorp\<rparr>\<rparr>],
           spec_sentence_text ''b--1'' ''fr''
             [\<lparr>token = ''Paris'', tag = \<lparr>tag_type = TagType_B, tag_category = HumanSettlement\<rparr>\<rparr>]]"
proof -
  let ?text = "''# id a--1'' @ CHR 0x09 # ''domain=fr\<newline>IBM _ _ B-TechCorp\<newline>\<newline>\<newline>''
          @ ''# id b--1'' @ CHR 0x09 # ''domain=fr\<newline>Paris _ _ B-HumanSettlement\<newline>\<newline>\<newline>''"
  have sel: "trans_file \<lparr>trans_file = ?text, orig_file = ?text,
                         translations_index = 2, db_amt = 2, warnings = []\<rparr> = ?text"
    by (simp only: run_state.simps)
  have ini: "trans_file initial_state = []" "db_amt initial_state = 0"
    "translations_index initial_state = 0"
    by (simp_all add: initial_state_def)
  from serialized_output_format [OF two_sentence_run]
  have "trans_file \<lparr>trans_file = ?text, orig_file = ?text,
                     translations_index = 2, db_amt = 2, warnings = []\<rparr>
        = trans_file initial_state
           @ spec_corpus_text (db_amt initial_state)
               (map (\<lambda>(idv, ow, tw). spec_sentence_text idv ''fr'' tw)
                  (spec_output_pairs
                     [one_entity_sentence ''a'' ''IBM'' TechCorp,
                      one_entity_sentence ''b'' ''Paris'' HumanSettlement]
                     [translated (CHR 0x22 # ''IBM'' @ [CHR 0x22]),
                      translated (CHR 0x22 # ''Paris'' @ [CHR 0x22])]
                     (translations_index initial_state)))"
    by (rule conjunct1)
  then have "?text = spec_corpus_text 0
          [spec_sentence_text ''a--1'' ''fr''
             [\<lparr>token = ''IBM'', tag = \<lparr>tag_type = TagType_B, tag_category = TechCorp\<rparr>\<rparr>],
           spec_sentence_text ''b--1'' ''fr''
             [\<lparr>token = ''Paris'', tag = \<lparr>tag_type = TagType_B, tag_category = HumanSettlement\<rparr>\<rparr>]]"
    unfolding sel ini two_sentence_pairs list.map prod.case append_Nil .
  with two_sentence_run show ?thesis by (rule conjI)
qed

text \<open>
  Claim C9 as stated fails on the run on two one-word sentences: between the last word line
  of the first sentence and the id line of the second there are two empty lines, so the file
  does not start with the two sentence texts separated by a single empty line.
\<close>

theorem single_blank_line_counterexample:
  "main_loop
     [one_entity_sentence ''a'' ''IBM'' TechCorp, one_entity_sentence ''b'' ''Paris'' HumanSettlement]
     [translated (CHR 0x22 # ''IBM'' @ [CHR 0x22]), translated (CHR 0x22 # ''Paris'' @ [CHR 0x22])]
     initial_state =
   Inr \<lparr>trans_file =
          ''# id a--1'' @ CHR 0x09 # ''domain=fr\<newline>IBM _ _ B-TechCorp\<newline>\<newline>\<newline>''
          @ ''# id b--1'' @ CHR 0x09 # ''domain=fr\<newline>Paris _ _ B-HumanSettlement\<newline>\<newline>\<newline>'',
        orig_file =
          ''# id a--1'' @ CHR 0x09 # ''domain=fr\<newline>IBM _ _ B-TechCorp\<newline>\<newline>\<newline>''
          @ ''# id b--1'' @ CHR 0x09 # ''domain=fr\<newline>Paris _ _ B-HumanSettlement\<newline>\<newline>\<newline>'',
        translations_index = 2, db_amt = 2, warnings = []\<rparr>
   \<and> \<not> prefix
         (''# id a--1'' @ CHR 0x09 # ''domain=fr\<newline>IBM _ _ B-TechCorp\<newline>''
          @ ''\<newline>''
          @ ''# id b--1'' @ CHR 0x09 # ''domain=fr\<newline>Paris _ _ B-HumanSettlement\<newline>'')
         (''# id a--1'' @ CHR 0x09 # ''domain=fr\<newline>IBM _ _ B-TechCorp\<newline>\<newline>\<newline>''
          @ ''# id b--1'' @ CHR 0x09 # ''domain=fr\<newline>Paris _ _ B-HumanSettlement\<newline>\<newline>\<newline>'')"
proof -
  have "\<not> prefix
         (''# id a--1'' @ CHR 0x09 # ''domain=fr\<newline>IBM _ _ B-TechCorp\<newline>''
          @ ''\<newline>''
          @ ''# id b--1'' @ CHR 0x09 # ''domain=fr\<newline>Paris _ _ B-HumanSettlement\<newline>'')
         (''# id a--1'' @ CHR 0x09 # ''domain=fr\<newline>IBM _ _ B-TechCorp\<newline>\<newline>\<newline>''
          @ ''# id b--1'' @ CHR 0x09 # ''domain=fr\<newline>Paris _ _ B-HumanSettlement\<newline>\<newline>\<newline>'')"
    by code_simp
  with two_sentence_run show ?thesis by (rule conjI)
qed

end
